theory Spec2Isabelle
  imports Complex_Main
begin

section \<open>Sutherland-Hodgman clipping server: the geometric core of server.cpp\<close>

text \<open>
  The development embeds the classes \<open>Point\<close>, \<open>Edge\<close>, \<open>Vertex\<close> and \<open>Polygon\<close> of
  \<^verbatim>\<open>src/server.cpp\<close> and the two clip functions.

  Conventions of the embedding.
  \<^item> A C++ \<open>double\<close> is a \<open>real\<close>: arithmetic is exact, there is no rounding, no infinity
    and no NaN.  The rounded arithmetic of the program can give a point another class, or
    a crossing another parameter, than the exact one (a cross product that rounds to zero,
    a difference that overflows).  The general theorems about the clip functions
    therefore use \<open>Point_classify\<close>, \<open>Edge_intersect\<close> and \<open>Edge_point\<close> only through
    the values they return, as the control flow of the program does, and never through a
    law of real arithmetic; no theorem relates the class of a point to the sign of the
    exact cross product.  The concrete evaluations are at small integers, halves and
    powers of two, where every operation of the program is exact in binary floating
    point as well, so they are the ones the program performs.
  \<^item> The free store is a list of vertices; an address is an index, \<open>new\<close> appends a cell,
    a \<open>Vertex*\<close> is a \<open>nat option\<close> with \<open>None\<close> for \<open>nullptr\<close>.  \<open>delete\<close> is not modelled:
    cells are never reused, and the program never touches a polygon after deleting it.
  \<^item> A \<open>Polygon\<close> object is a record value passed in and out of the functions that take
    it by reference; two polygon objects are never the same object.
  \<^item> \<open>_size\<close> is a natural number (the program only ever increments it from 0; the
    wrap-around of \<open>int\<close> at \<open>2^31\<close> vertices is out of reach of the store).
  \<^item> Undefined behaviour is an error value: dereferencing a null or dangling pointer is
    \<open>InvalidPointer\<close>, reading the never-assigned \<open>double t\<close> is \<open>UninitialisedRead\<close>;
    the C++ exception of \<open>Polygon::edge\<close> is \<open>RuntimeError\<close>.
\<close>

subsection \<open>Point, Edge and the classification of a point (server.cpp 14-103)\<close>

datatype PointClass = LEFT | RIGHT | BEHIND | BEYOND | BETWEEN | ORIGIN | DESTINATION

datatype Rotation = CLOCKWISE | COUNTER_CLOCKWISE

datatype error = RuntimeError string | InvalidPointer | UninitialisedRead

text \<open>The fields \<open>x\<close> and \<open>y\<close> of \<open>Point\<close> are \<open>px\<close> and \<open>py\<close>.\<close>

record Point =
  px :: real
  py :: real

record Edge =
  org :: Point
  dest :: Point

text \<open>\<open>Point::operator==\<close>: squared distance below \<open>1e-15\<close>.\<close>

definition Point_eq :: "Point \<Rightarrow> Point \<Rightarrow> bool" where
  "Point_eq p other =
     ((px p - px other) * (px p - px other) + (py p - py other) * (py p - py other)
        < 1 / 10 ^ 15)"

text \<open>\<open>Point::operator-\<close> and \<open>Point::length\<close>.\<close>

definition Point_minus :: "Point \<Rightarrow> Point \<Rightarrow> Point" where
  "Point_minus p other = \<lparr>px = px p - px other, py = py p - py other\<rparr>"

definition Point_length :: "Point \<Rightarrow> real" where
  "Point_length p = sqrt (px p * px p + py p * py p)"

text \<open>\<open>Point::classify\<close>, branch for branch.\<close>

definition Point_classify :: "Point \<Rightarrow> Edge \<Rightarrow> PointClass" where
  "Point_classify p e =
     (let a = Point_minus (dest e) (org e);
          b = Point_minus p (org e);
          sa = px a * py b - px b * py a
      in if sa > 0 then LEFT
         else if sa < 0 then RIGHT
         else if px a * px b < 0 \<or> py a * py b < 0 then BEHIND
         else if Point_length a < Point_length b then BEYOND
         else if Point_eq (org e) p then ORIGIN
         else if Point_eq (dest e) p then DESTINATION
         else BETWEEN)"

text \<open>\<open>Edge::point\<close>.\<close>

definition Edge_point :: "Edge \<Rightarrow> real \<Rightarrow> Point" where
  "Edge_point e t =
     \<lparr>px = px (org e) + t * (px (dest e) - px (org e)),
      py = py (org e) + t * (py (dest e) - py (org e))\<rparr>"

text \<open>
  \<open>Edge::intersect\<close>.  The result is the returned flag together with the value written
  to the reference parameter \<open>t\<close>: \<open>None\<close> when the function returns before the
  assignment, so that \<open>t\<close> keeps whatever it held.
\<close>

definition Edge_intersect :: "Edge \<Rightarrow> Edge \<Rightarrow> bool \<times> real option" where
  "Edge_intersect this e =
     (let a = px (dest this) - px (org this); b = px (org e) - px (dest e);
          c = py (dest this) - py (org this); d = py (org e) - py (dest e);
          denom = a * d - b * c
      in if \<bar>denom\<bar> < 1 / 10 ^ 15 then (False, None)
         else let e1 = px (org e) - px (org this); e2 = py (org e) - py (org this);
                  t = (e1 * d - e2 * b) / denom;
                  u = (e1 * c - e2 * a) / denom
              in (t \<ge> 0 \<and> t \<le> 1 \<and> u \<ge> 0 \<and> u \<le> 1, Some t))"

subsection \<open>Vertex and Polygon on the free store (server.cpp 105-214)\<close>

text \<open>\<open>Vertex\<close> derives from \<open>Point\<close>: the record extends \<open>Point\<close> by \<open>_next\<close> and \<open>_prev\<close>.\<close>

record Vertex = Point +
  v_next :: "nat option"
  v_prev :: "nat option"

record Polygon =
  p_v :: "nat option"
  p_size :: nat

type_synonym heap = "Vertex list"

text \<open>\<open>Vertex(const Point&)\<close>, and the conversion of a \<open>Vertex\<close> to its \<open>Point\<close> base.\<close>

definition Vertex_new :: "Point \<Rightarrow> Vertex" where
  "Vertex_new p = Point.extend p (Vertex.fields None None)"

definition Vertex_point :: "Vertex \<Rightarrow> Point" where
  "Vertex_point v = Point.truncate v"

text \<open>Dereferencing a \<open>Vertex*\<close>.\<close>

definition load :: "heap \<Rightarrow> nat option \<Rightarrow> error + Vertex" where
  "load h r = (case r of None \<Rightarrow> Inl InvalidPointer
               | Some a \<Rightarrow> if a < length h then Inr (h ! a) else Inl InvalidPointer)"

definition Vertex_cw :: "Vertex \<Rightarrow> nat option" where
  "Vertex_cw v = v_next v"

definition Vertex_ccw :: "Vertex \<Rightarrow> nat option" where
  "Vertex_ccw v = v_prev v"

definition Vertex_neighbor :: "Vertex \<Rightarrow> Rotation \<Rightarrow> nat option" where
  "Vertex_neighbor v rotation = (if rotation = CLOCKWISE then Vertex_cw v else Vertex_ccw v)"

text \<open>
  \<open>Vertex::insert\<close>: the four assignments in the order of the source, each reading the
  store the previous one left.  The returned pointer is the argument \<open>v\<close>.
\<close>

definition Vertex_insert :: "heap \<Rightarrow> nat \<Rightarrow> nat \<Rightarrow> error + heap" where
  "Vertex_insert h this v =
     (if this < length h \<and> v < length h then
        let h1 = h[v := (h ! v)\<lparr>v_next := v_next (h ! this)\<rparr>];
            h2 = h1[v := (h1 ! v)\<lparr>v_prev := Some this\<rparr>]
        in (case v_next (h2 ! this) of
              None \<Rightarrow> Inr (h2[this := (h2 ! this)\<lparr>v_next := Some v\<rparr>])
            | Some n \<Rightarrow>
                if n < length h2 then
                  let h3 = h2[n := (h2 ! n)\<lparr>v_prev := Some v\<rparr>]
                  in Inr (h3[this := (h3 ! this)\<lparr>v_next := Some v\<rparr>])
                else Inl InvalidPointer)
      else Inl InvalidPointer)"

text \<open>\<open>Polygon::Polygon()\<close>.\<close>

definition Polygon_new :: Polygon where
  "Polygon_new = \<lparr>p_v = None, p_size = 0\<rparr>"

text \<open>
  \<open>Polygon::insert\<close>.  The cursor \<open>_v\<close> is set only when the polygon was empty; otherwise
  the new vertex goes right after the cursor and the cursor stays.
\<close>

definition Polygon_insert :: "heap \<Rightarrow> Polygon \<Rightarrow> Point \<Rightarrow> error + heap \<times> Polygon" where
  "Polygon_insert h P p =
     (let v = length h; h0 = h @ [Vertex_new p]
      in case p_v P of
           None \<Rightarrow>
             let h1 = h0[v := (h0 ! v)\<lparr>v_prev := Some v\<rparr>];
                 h2 = h1[v := (h1 ! v)\<lparr>v_next := Some v\<rparr>]
             in Inr (h2, P\<lparr>p_v := Some v, p_size := p_size P + 1\<rparr>)
         | Some c \<Rightarrow>
             (case Vertex_insert h0 c v of
                Inl err \<Rightarrow> Inl err
              | Inr h1 \<Rightarrow> Inr (h1, P\<lparr>p_size := p_size P + 1\<rparr>)))"

text \<open>\<open>Polygon::edge\<close>; it reads the store and the polygon and writes neither.\<close>

definition Polygon_edge :: "heap \<Rightarrow> Polygon \<Rightarrow> error + Edge" where
  "Polygon_edge h P =
     (case p_v P of
        None \<Rightarrow> Inl (RuntimeError ''Polygon is empty'')
      | Some a \<Rightarrow>
          (case load h (Some a) of
             Inl err \<Rightarrow> Inl err
           | Inr va \<Rightarrow>
               (case load h (Vertex_cw va) of
                  Inl err \<Rightarrow> Inl err
                | Inr vb \<Rightarrow> Inr \<lparr>org = Vertex_point va, dest = Vertex_point vb\<rparr>)))"

text \<open>\<open>Polygon::getPoint\<close>, \<open>Polygon::advance\<close>, \<open>Polygon::cw\<close>.\<close>

definition Polygon_getPoint :: "heap \<Rightarrow> Polygon \<Rightarrow> error + Point" where
  "Polygon_getPoint h P =
     (case load h (p_v P) of Inl err \<Rightarrow> Inl err | Inr v \<Rightarrow> Inr (Vertex_point v))"

definition Polygon_advance :: "heap \<Rightarrow> Polygon \<Rightarrow> Rotation \<Rightarrow> error + Polygon" where
  "Polygon_advance h P rotation =
     (case load h (p_v P) of
        Inl err \<Rightarrow> Inl err
      | Inr v \<Rightarrow> Inr (P\<lparr>p_v := Vertex_neighbor v rotation\<rparr>))"

definition Polygon_cw :: "heap \<Rightarrow> Polygon \<Rightarrow> error + nat option" where
  "Polygon_cw h P =
     (case load h (p_v P) of Inl err \<Rightarrow> Inl err | Inr v \<Rightarrow> Inr (Vertex_cw v))"

text \<open>
  The copy constructor.  Its \<open>do ... while (current != other._v)\<close> loop has no bound
  of its own, so it is a partial function: \<open>None\<close> is a loop that never ends.  One round
  inserts \<open>*current\<close> into the new polygon, steps \<open>current\<close> clockwise and tests it.
\<close>

partial_function (option) Polygon_copy_loop ::
  "nat option \<Rightarrow> nat option \<Rightarrow> heap \<times> Polygon \<Rightarrow> (error + heap \<times> Polygon) option" where
  "Polygon_copy_loop other_v current hP =
     (case load (fst hP) current of
        Inl err \<Rightarrow> Some (Inl err)
      | Inr cv \<Rightarrow>
          (case Polygon_insert (fst hP) (snd hP) (Vertex_point cv) of
             Inl err \<Rightarrow> Some (Inl err)
           | Inr hP' \<Rightarrow>
               (case load (fst hP') current of
                  Inl err \<Rightarrow> Some (Inl err)
                | Inr cv' \<Rightarrow>
                    if Vertex_cw cv' \<noteq> other_v
                    then Polygon_copy_loop other_v (Vertex_cw cv') hP'
                    else Some (Inr hP'))))"

definition Polygon_copy :: "heap \<Rightarrow> Polygon \<Rightarrow> (error + heap \<times> Polygon) option" where
  "Polygon_copy h other =
     (case p_v other of
        None \<Rightarrow> Some (Inr (h, Polygon_new))
      | Some a \<Rightarrow> Polygon_copy_loop (p_v other) (p_v other) (h, Polygon_new))"

text \<open>
  The loop of \<open>main\<close> that builds a polygon from the parsed coordinates
  (server.cpp 285-290): one \<open>insert\<close> per point, in input order.
\<close>

fun buildPolygon :: "heap \<Rightarrow> Polygon \<Rightarrow> Point list \<Rightarrow> error + heap \<times> Polygon" where
  "buildPolygon h P [] = Inr (h, P)"
| "buildPolygon h P (p # ps) =
     (case Polygon_insert h P p of
        Inl err \<Rightarrow> Inl err
      | Inr (h', P') \<Rightarrow> buildPolygon h' P' ps)"

subsection \<open>The clip functions (server.cpp 221-257)\<close>

text \<open>
  The body of the \<open>for\<close> loop of \<open>clipPolygonToEdge\<close>, without the \<open>advance\<close> of the
  loop header: \<open>s\<close> is the subject, \<open>p\<close> the polygon under construction.
\<close>

definition clip_body :: "Edge \<Rightarrow> heap \<Rightarrow> Polygon \<Rightarrow> Polygon \<Rightarrow> error + heap \<times> Polygon" where
  "clip_body e h s p =
     (case Polygon_getPoint h s of
        Inl err \<Rightarrow> Inl err
      | Inr og \<Rightarrow>
      (case Polygon_cw h s of
        Inl err \<Rightarrow> Inl err
      | Inr w \<Rightarrow>
      (case load h w of
        Inl err \<Rightarrow> Inl err
      | Inr dv \<Rightarrow>
        let d = Vertex_point dv;
            orgInside = (Point_classify og e \<noteq> LEFT);
            destInside = (Point_classify d e \<noteq> LEFT)
        in if orgInside \<noteq> destInside then
             (case Polygon_edge h s of
                Inl err \<Rightarrow> Inl err
              | Inr se \<Rightarrow>
                  (case snd (Edge_intersect e se) of
                     None \<Rightarrow> Inl UninitialisedRead
                   | Some t \<Rightarrow>
                       let cross = Edge_point e t
                       in if orgInside then Polygon_insert h p cross
                          else (case Polygon_insert h p cross of
                                  Inl err \<Rightarrow> Inl err
                                | Inr (h', p') \<Rightarrow> Polygon_insert h' p' d)))
           else if orgInside then Polygon_insert h p d
           else Inr (h, p))))"

function clipPolygonToEdge_loop ::
  "Edge \<Rightarrow> nat \<Rightarrow> heap \<Rightarrow> Polygon \<Rightarrow> Polygon \<Rightarrow> error + heap \<times> Polygon \<times> Polygon" where
  "clipPolygonToEdge_loop e i h s p =
     (if i < p_size s then
        (case clip_body e h s p of
           Inl err \<Rightarrow> Inl err
         | Inr (h', p') \<Rightarrow>
             (case Polygon_advance h' s CLOCKWISE of
                Inl err \<Rightarrow> Inl err
              | Inr s' \<Rightarrow> clipPolygonToEdge_loop e (Suc i) h' s' p'))
      else Inr (h, s, p))"
  by pat_completeness auto

termination
  by (relation "measure (\<lambda>(e, i, h, s, p). p_size s - i)")
     (auto simp: Polygon_advance_def split: sum.splits)

declare clipPolygonToEdge_loop.simps [simp del]

text \<open>
  \<open>clipPolygonToEdge\<close> returns the flag, the polygon assigned to \<open>result\<close>, the subject
  (passed by reference and advanced by the loop) and the store.
\<close>

definition clipPolygonToEdge ::
  "heap \<Rightarrow> Polygon \<Rightarrow> Edge \<Rightarrow> error + bool \<times> Polygon \<times> Polygon \<times> heap" where
  "clipPolygonToEdge h s e =
     (case clipPolygonToEdge_loop e 0 h s Polygon_new of
        Inl err \<Rightarrow> Inl err
      | Inr (h', s', p) \<Rightarrow> Inr (p_size p > 0, p, s', h'))"

text \<open>
  The loop of \<open>clipPolygon\<close>: \<open>p\<close> is the cutter, \<open>q\<close> the working polygon.  The result
  is the flag, the polygon assigned to \<open>result\<close> (\<open>None\<close>: no assignment), the cutter
  and the store.
\<close>

function clipPolygon_loop ::
  "nat \<Rightarrow> heap \<Rightarrow> Polygon \<Rightarrow> Polygon \<Rightarrow> error + bool \<times> Polygon option \<times> Polygon \<times> heap" where
  "clipPolygon_loop i h p q =
     (if i < p_size p then
        (case Polygon_edge h p of
           Inl err \<Rightarrow> Inl err
         | Inr e \<Rightarrow>
             (case clipPolygonToEdge h q e of
                Inl err \<Rightarrow> Inl err
              | Inr (nonEmpty, r, q', h') \<Rightarrow>
                  if \<not> nonEmpty then Inr (False, None, p, h')
                  else (case Polygon_advance h' p CLOCKWISE of
                          Inl err \<Rightarrow> Inl err
                        | Inr p' \<Rightarrow> clipPolygon_loop (Suc i) h' p' r)))
      else Inr (True, Some q, p, h))"
  by pat_completeness auto

termination
  by (relation "measure (\<lambda>(i, h, p, q). p_size p - i)")
     (auto simp: Polygon_advance_def split: sum.splits)

declare clipPolygon_loop.simps [simp del]

definition clipPolygon ::
  "heap \<Rightarrow> Polygon \<Rightarrow> Polygon \<Rightarrow> (error + bool \<times> Polygon option \<times> Polygon \<times> heap) option" where
  "clipPolygon h s p =
     (case Polygon_copy h s of
        None \<Rightarrow> None
      | Some (Inl err) \<Rightarrow> Some (Inl err)
      | Some (Inr (h1, q)) \<Rightarrow> Some (clipPolygon_loop 0 h1 p q))"

subsection \<open>Vocabulary of the properties\<close>

text \<open>The determinant of the system \<open>Edge::intersect\<close> solves.\<close>

definition Edge_det :: "Edge \<Rightarrow> Edge \<Rightarrow> real" where
  "Edge_det this e = (px (dest this) - px (org this)) * (py (org e) - py (dest e))
                   - (px (org e) - px (dest e)) * (py (dest this) - py (org this))"

text \<open>
  The parameter along \<open>this\<close> of the point where the lines of \<open>this\<close> and \<open>e\<close> meet,
  by Cramer's rule from \<open>org this + t (dest this - org this) = org e + u (dest e - org e)\<close>.
\<close>

definition line_param :: "Edge \<Rightarrow> Edge \<Rightarrow> real" where
  "line_param this e =
     ((px (org e) - px (org this)) * (py (org e) - py (dest e))
      - (py (org e) - py (org this)) * (px (org e) - px (dest e))) / Edge_det this e"

text \<open>The \<open>_next\<close> and \<open>_prev\<close> links of the store, as partial functions on addresses.\<close>

definition nxt :: "heap \<Rightarrow> nat \<Rightarrow> nat option" where
  "nxt h a = (if a < length h then v_next (h ! a) else None)"

definition prv :: "heap \<Rightarrow> nat \<Rightarrow> nat option" where
  "prv h a = (if a < length h then v_prev (h ! a) else None)"

text \<open>\<open>walk h k r\<close> follows \<open>_next\<close> exactly \<open>k\<close> times from the pointer \<open>r\<close>.\<close>

fun walk :: "heap \<Rightarrow> nat \<Rightarrow> nat option \<Rightarrow> nat option" where
  "walk h 0 r = r"
| "walk h (Suc k) r = walk h k (case r of None \<Rightarrow> None | Some a \<Rightarrow> nxt h a)"

text \<open>
  The ring invariant in the words of the specification: a polygon of count 0 has a null
  cursor; in a polygon of positive count, every vertex reached from the cursor comes back
  to itself after exactly \<open>_size\<close> clockwise steps, and \<open>_prev\<close> inverts \<open>_next\<close> there.
\<close>

definition ring_inv :: "heap \<Rightarrow> Polygon \<Rightarrow> bool" where
  "ring_inv h P =
     (case p_v P of
        None \<Rightarrow> p_size P = 0
      | Some v \<Rightarrow>
          0 < p_size P \<and>
          (\<forall>k<p_size P.
             case walk h k (Some v) of
               None \<Rightarrow> False
             | Some w \<Rightarrow>
                 walk h (p_size P) (Some w) = Some w \<and>
                 (case nxt h w of None \<Rightarrow> False | Some w' \<Rightarrow> prv h w' = Some w) \<and>
                 (case prv h w of None \<Rightarrow> False | Some w' \<Rightarrow> nxt h w' = Some w)))"

text \<open>
  \<open>links h xs\<close>: each element of \<open>xs\<close> points to the following one by \<open>_next\<close> and is
  pointed back to by \<open>_prev\<close>.  \<open>ring h as\<close>: the distinct addresses \<open>as\<close> form a closed
  doubly-linked ring in this order.
\<close>

fun links :: "heap \<Rightarrow> nat list \<Rightarrow> bool" where
  "links h (a # b # bs) = (nxt h a = Some b \<and> prv h b = Some a \<and> links h (b # bs))"
| "links h bs = True"

definition ring :: "heap \<Rightarrow> nat list \<Rightarrow> bool" where
  "ring h as = (as \<noteq> [] \<and> distinct as \<and> links h (as @ [hd as]))"

text \<open>
  \<open>trav h n a\<close>: the addresses met in \<open>n\<close> clockwise steps from \<open>a\<close>.  \<open>Polygon_ring\<close> is
  this walk from the cursor, \<open>Polygon_points\<close> its coordinates: the list \<open>main\<close> prints
  for a result (server.cpp 303-307).
\<close>

fun trav :: "heap \<Rightarrow> nat \<Rightarrow> nat \<Rightarrow> nat list" where
  "trav h 0 a = []"
| "trav h (Suc n) a = a # (case nxt h a of None \<Rightarrow> [] | Some b \<Rightarrow> trav h n b)"

definition pts :: "heap \<Rightarrow> nat list \<Rightarrow> Point list" where
  "pts h as = map (\<lambda>a. Vertex_point (h ! a)) as"

definition Polygon_ring :: "heap \<Rightarrow> Polygon \<Rightarrow> nat list" where
  "Polygon_ring h P = (case p_v P of None \<Rightarrow> [] | Some a \<Rightarrow> trav h (p_size P) a)"

definition Polygon_points :: "heap \<Rightarrow> Polygon \<Rightarrow> Point list" where
  "Polygon_points h P = pts h (Polygon_ring h P)"

text \<open>
  The invariant the operations maintain, stronger than \<open>ring_inv\<close>: the ring has exactly
  \<open>_size\<close> distinct vertices.  \<open>poly_at h P as\<close> names the ring: \<open>P\<close> is the polygon
  whose vertices, clockwise from the cursor, are the addresses \<open>as\<close>.
\<close>

definition Polygon_ok :: "heap \<Rightarrow> Polygon \<Rightarrow> bool" where
  "Polygon_ok h P =
     (case p_v P of
        None \<Rightarrow> p_size P = 0
      | Some a \<Rightarrow> 0 < p_size P \<and> length (Polygon_ring h P) = p_size P \<and>
                  ring h (Polygon_ring h P))"

definition poly_at :: "heap \<Rightarrow> Polygon \<Rightarrow> nat list \<Rightarrow> bool" where
  "poly_at h P as =
     (if as = [] then p_v P = None \<and> p_size P = 0
      else ring h as \<and> p_v P = Some (hd as) \<and> p_size P = length as)"

text \<open>
  \<open>ext h0 h\<close>: the store \<open>h\<close> is \<open>h0\<close> with cells added, every cell of \<open>h0\<close> as it was.
  \<open>fresh_poly h0 h P as\<close>: \<open>P\<close> is a polygon on the ring \<open>as\<close>, all of it allocated after
  \<open>h0\<close>.
\<close>

definition ext :: "heap \<Rightarrow> heap \<Rightarrow> bool" where
  "ext h0 h = (length h0 \<le> length h \<and> (\<forall>a<length h0. h ! a = h0 ! a))"

definition fresh_poly :: "heap \<Rightarrow> heap \<Rightarrow> Polygon \<Rightarrow> nat list \<Rightarrow> bool" where
  "fresh_poly h0 h P as = (poly_at h P as \<and> (\<forall>a\<in>set as. length h0 \<le> a) \<and> ext h0 h)"

text \<open>
  Inserting after the head of a list, and the ring order that inserting \<open>xs\<close> one by one
  into an empty polygon produces: the first point, then the others last to second.
\<close>

definition ins_after :: "'a list \<Rightarrow> 'a \<Rightarrow> 'a list" where
  "ins_after as v = (case as of [] \<Rightarrow> [v] | c # rest \<Rightarrow> c # v # rest)"

definition ring_order :: "'a list \<Rightarrow> 'a list" where
  "ring_order xs = (case xs of [] \<Rightarrow> [] | x # rest \<Rightarrow> x # rev rest)"

text \<open>
  The directed edges of a ring of points, and the points one round of the loop of
  \<open>clipPolygonToEdge\<close> inserts for the subject edge from \<open>og\<close> to \<open>d\<close>: the
  decisions of \<open>clip_body\<close> without the store (\<open>clip_body_emit\<close> below relates the two).
\<close>

definition subject_edges :: "Point list \<Rightarrow> (Point \<times> Point) list" where
  "subject_edges ps = zip ps (rotate1 ps)"

definition emit :: "Edge \<Rightarrow> Point \<Rightarrow> Point \<Rightarrow> error + Point list" where
  "emit e og d =
     (let orgInside = (Point_classify og e \<noteq> LEFT);
          destInside = (Point_classify d e \<noteq> LEFT)
      in if orgInside \<noteq> destInside then
           (case snd (Edge_intersect e \<lparr>org = og, dest = d\<rparr>) of
              None \<Rightarrow> Inl UninitialisedRead
            | Some t \<Rightarrow> if orgInside then Inr [Edge_point e t] else Inr [Edge_point e t, d])
         else if orgInside then Inr [d]
         else Inr [])"

fun emit_all :: "Edge \<Rightarrow> (Point \<times> Point) list \<Rightarrow> error + Point list" where
  "emit_all e [] = Inr []"
| "emit_all e ((og, d) # es) =
     (case emit e og d of
        Inl err \<Rightarrow> Inl err
      | Inr ps \<Rightarrow> (case emit_all e es of Inl err \<Rightarrow> Inl err | Inr qs \<Rightarrow> Inr (ps @ qs)))"

text \<open>
  The single-edge clip as the specification words it, with the inside test a parameter:
  both endpoints inside emit \<open>dest\<close>; inside to outside emits the crossing point; outside
  to inside emits the crossing point and \<open>dest\<close>; both outside emit nothing.
\<close>

definition spec_clip_edge :: "(Point \<Rightarrow> bool) \<Rightarrow> Edge \<Rightarrow> Point \<times> Point \<Rightarrow> Point list" where
  "spec_clip_edge inside e od =
     (let og = fst od; d = snd od;
          crossing = Edge_point e (line_param e \<lparr>org = og, dest = d\<rparr>)
      in if inside og \<and> inside d then [d]
         else if inside og \<and> \<not> inside d then [crossing]
         else if \<not> inside og \<and> inside d then [crossing, d]
         else [])"

definition spec_clip :: "(Point \<Rightarrow> bool) \<Rightarrow> Edge \<Rightarrow> Point list \<Rightarrow> Point list" where
  "spec_clip inside e ps = ring_order (concat (map (spec_clip_edge inside e) (subject_edges ps)))"

text \<open>
  The fold of \<open>clipPolygon\<close> over the cutter's edges on rings of points: \<open>Inr (Inl k)\<close>
  when the clip against the edge of index \<open>k\<close> comes out empty, \<open>Inr (Inr qs)\<close> for the
  final ring.
\<close>

definition cutter_edges :: "Point list \<Rightarrow> Edge list" where
  "cutter_edges cs = map (\<lambda>(a, b). \<lparr>org = a, dest = b\<rparr>) (subject_edges cs)"

fun clip_steps :: "nat \<Rightarrow> Edge list \<Rightarrow> Point list \<Rightarrow> error + (nat + Point list)" where
  "clip_steps k [] qs = Inr (Inr qs)"
| "clip_steps k (e # es) qs =
     (case emit_all e (subject_edges qs) of
        Inl err \<Rightarrow> Inl err
      | Inr ps \<Rightarrow> if ps = [] then Inr (Inl k) else clip_steps (Suc k) es (ring_order ps))"

subsection \<open>Concrete inputs\<close>

text \<open>
  Shorthand for points and for vertices with both links set, and one store used by the
  examples: cell 0 is a one-vertex ring at (0,2), cells 1 and 2 form the ring of the
  two-vertex polygon (1,1), (1,3).
\<close>

abbreviation pt :: "real \<Rightarrow> real \<Rightarrow> Point" where
  "pt a b \<equiv> \<lparr>px = a, py = b\<rparr>"

abbreviation vtx :: "real \<Rightarrow> real \<Rightarrow> nat \<Rightarrow> nat \<Rightarrow> Vertex" where
  "vtx a b n p \<equiv> \<lparr>px = a, py = b, v_next = Some n, v_prev = Some p\<rparr>"

abbreviation store3 :: heap where
  "store3 \<equiv> [vtx 0 2 0 0, vtx 1 1 2 2, vtx 1 3 1 1]"

abbreviation one_gon :: Polygon where
  "one_gon \<equiv> \<lparr>p_v = Some 0, p_size = 1\<rparr>"

abbreviation two_gon :: Polygon where
  "two_gon \<equiv> \<lparr>p_v = Some 1, p_size = 2\<rparr>"

text \<open>
  Two more stores: \<open>store_right\<close> is \<open>store3\<close> with the one-vertex ring at (2,2), and
  in \<open>store_pair\<close> cells 0 and 1 form the ring of the two-vertex polygon (0,0), (2,0).
\<close>

abbreviation store_right :: heap where
  "store_right \<equiv> [vtx 2 2 0 0, vtx 1 1 2 2, vtx 1 3 1 1]"



section \<open>Intersection: auxiliary facts\<close>

lemma Edge_intersect_unassigned:
  "\<bar>Edge_det this e\<bar> < 1 / 10 ^ 15 \<Longrightarrow> Edge_intersect this e = (False, None)"
  by (simp add: Edge_intersect_def Edge_det_def Let_def)

lemma Edge_intersect_line_param:
  "snd (Edge_intersect this e) = Some t \<Longrightarrow> t = line_param this e"
  by (auto simp: Edge_intersect_def line_param_def Edge_det_def Let_def split: if_splits)

lemma Edge_det_swap: "Edge_det e this = - Edge_det this e"
  by (simp add: Edge_det_def algebra_simps)

lemma Edge_intersect_flag_iff:
  "fst (Edge_intersect this e) \<longleftrightarrow>
     1 / 10 ^ 15 \<le> \<bar>Edge_det this e\<bar> \<and>
     0 \<le> line_param this e \<and> line_param this e \<le> 1 \<and>
     - 1 \<le> line_param e this \<and> line_param e this \<le> 0"
proof (cases "\<bar>Edge_det this e\<bar> < 1 / 10 ^ 15")
  case True
  then show ?thesis by (simp add: Edge_intersect_unassigned)
next
  case False
  let ?a = "px (dest this) - px (org this)" and ?c = "py (dest this) - py (org this)"
  let ?e1 = "px (org e) - px (org this)" and ?e2 = "py (org e) - py (org this)"
  let ?u = "(?e1 * ?c - ?e2 * ?a) / Edge_det this e"
  have u: "line_param e this = - ?u"
  proof -
    have n: "(px (org this) - px (org e)) * (py (org this) - py (dest this))
             - (py (org this) - py (org e)) * (px (org this) - px (dest this))
             = ?e1 * ?c - ?e2 * ?a"
      by algebra
    have "line_param e this = (?e1 * ?c - ?e2 * ?a) / Edge_det e this"
      unfolding line_param_def n ..
    then show ?thesis unfolding Edge_det_swap [of e this] by simp
  qed
  have "fst (Edge_intersect this e) \<longleftrightarrow>
     0 \<le> line_param this e \<and> line_param this e \<le> 1 \<and> 0 \<le> ?u \<and> ?u \<le> 1"
    using False by (simp add: Edge_intersect_def line_param_def Edge_det_def Let_def)
  with False u show ?thesis by auto
qed

section \<open>Rings on the free store and the refinement of the clip loop\<close>

lemma nxt_Some_less: "nxt h a = Some b \<Longrightarrow> a < length h"
  by (simp add: nxt_def split: if_splits)

lemma prv_Some_less: "prv h b = Some a \<Longrightarrow> b < length h"
  by (simp add: prv_def split: if_splits)

lemma links_frame:
  "links h xs \<Longrightarrow> (\<forall>x\<in>set (butlast xs). nxt h' x = nxt h x) \<Longrightarrow>
   (\<forall>y\<in>set (tl xs). prv h' y = prv h y) \<Longrightarrow> links h' xs"
proof (induction h xs rule: links.induct)
  case (1 h a b bs)
  then show ?case by auto
qed simp_all

lemma links_tl: "links h (a # xs) \<Longrightarrow> links h xs"
  by (cases xs) simp_all

lemma links_nth:
  "links h xs \<Longrightarrow> Suc i < length xs \<Longrightarrow>
   nxt h (xs ! i) = Some (xs ! Suc i) \<and> prv h (xs ! Suc i) = Some (xs ! i)"
proof (induction h xs arbitrary: i rule: links.induct)
  case (1 h a b bs)
  then show ?case by (cases i) auto
qed simp_all

lemma links_snoc:
  "links h (xs @ [y]) \<Longrightarrow> nxt h y = Some z \<Longrightarrow> prv h z = Some y \<Longrightarrow> links h (xs @ [y, z])"
proof (induction xs)
  case Nil
  then show ?case by simp
next
  case (Cons a xs)
  then show ?case by (cases xs) auto
qed

lemma links_in_range:
  "links h xs \<Longrightarrow> 2 \<le> length xs \<Longrightarrow> \<forall>x\<in>set xs. x < length h"
proof (induction h xs rule: links.induct)
  case (1 h a b bs)
  then show ?case by (cases bs) (auto dest: nxt_Some_less prv_Some_less)
qed simp_all

lemma ring_in_range: "ring h as \<Longrightarrow> a \<in> set as \<Longrightarrow> a < length h"
proof -
  assume r: "ring h as" and a: "a \<in> set as"
  then have "links h (as @ [hd as])" "2 \<le> length (as @ [hd as])"
    by (auto simp: ring_def Suc_le_eq)
  from links_in_range [OF this] a show ?thesis by simp
qed

lemma ring_nxt:
  assumes "ring h as" "i < length as"
  shows "nxt h (as ! i) = Some (as ! (Suc i mod length as))"
    and "prv h (as ! (Suc i mod length as)) = Some (as ! i)"
proof -
  from assms have l: "links h (as @ [hd as])" and ne: "as \<noteq> []" by (auto simp: ring_def)
  have i: "Suc i < length (as @ [hd as])" using assms by simp
  have a: "(as @ [hd as]) ! i = as ! i" using assms by (simp add: nth_append)
  have b: "(as @ [hd as]) ! Suc i = as ! (Suc i mod length as)"
  proof (cases "Suc i < length as")
    case True then show ?thesis by (simp add: nth_append)
  next
    case False
    with assms have "Suc i = length as" by simp
    then show ?thesis using ne by (simp add: nth_append hd_conv_nth)
  qed
  from links_nth [OF l i] a b
  show "nxt h (as ! i) = Some (as ! (Suc i mod length as))"
    and "prv h (as ! (Suc i mod length as)) = Some (as ! i)" by simp_all
qed

lemma trav_links:
  "links h (xs @ [y]) \<Longrightarrow> xs \<noteq> [] \<Longrightarrow> trav h (length xs) (hd xs) = xs"
proof (induction xs)
  case Nil
  then show ?case by simp
next
  case (Cons a xs)
  show ?case
  proof (cases xs)
    case Nil
    then show ?thesis by (simp split: option.splits)
  next
    case (Cons b bs)
    with Cons.prems have "nxt h a = Some b" "links h (xs @ [y])" by auto
    with Cons.IH Cons show ?thesis by simp
  qed
qed

lemma trav_ring: "ring h as \<Longrightarrow> trav h (length as) (hd as) = as"
  unfolding ring_def using trav_links by blast

lemma poly_at_ok: "poly_at h P as \<Longrightarrow> Polygon_ok h P \<and> Polygon_ring h P = as"
  by (auto simp: poly_at_def Polygon_ok_def Polygon_ring_def trav_ring split: if_splits)

lemma length_trav_pos: "0 < n \<Longrightarrow> trav h n a \<noteq> [] \<and> hd (trav h n a) = a"
  by (cases n) simp_all

lemma ok_poly_at: "Polygon_ok h P \<Longrightarrow> poly_at h P (Polygon_ring h P)"
proof (cases "p_v P")
  case None
  assume "Polygon_ok h P"
  with None show ?thesis by (simp add: Polygon_ok_def poly_at_def Polygon_ring_def)
next
  case (Some a)
  assume "Polygon_ok h P"
  with Some have pos: "0 < p_size P" and len: "length (Polygon_ring h P) = p_size P"
    and r: "ring h (Polygon_ring h P)"
    by (simp_all add: Polygon_ok_def)
  have tr: "Polygon_ring h P = trav h (p_size P) a" using Some by (simp add: Polygon_ring_def)
  from length_trav_pos [OF pos, of h a] tr
  have "Polygon_ring h P \<noteq> []" "hd (Polygon_ring h P) = a" by simp_all
  with r len Some show ?thesis by (simp add: poly_at_def)
qed

lemma nxt_frame: "a < length h \<Longrightarrow> a < length h' \<Longrightarrow> h' ! a = h ! a \<Longrightarrow> nxt h' a = nxt h a"
  by (simp add: nxt_def)

lemma prv_frame: "a < length h \<Longrightarrow> a < length h' \<Longrightarrow> h' ! a = h ! a \<Longrightarrow> prv h' a = prv h a"
  by (simp add: prv_def)

lemma ring_frame:
  assumes r: "ring h as" and f: "\<forall>a\<in>set as. a < length h' \<and> h' ! a = h ! a"
  shows "ring h' as"
proof -
  have in_r: "\<forall>a\<in>set as. a < length h" using r ring_in_range by blast
  have l: "links h (as @ [hd as])" and ne: "as \<noteq> []" and d: "distinct as"
    using r by (auto simp: ring_def)
  have "links h' (as @ [hd as])"
  proof (rule links_frame [OF l])
    show "\<forall>x\<in>set (butlast (as @ [hd as])). nxt h' x = nxt h x"
      using in_r f by (auto intro: nxt_frame)
    show "\<forall>y\<in>set (tl (as @ [hd as])). prv h' y = prv h y"
      using in_r f ne by (auto intro!: prv_frame dest: list.set_sel(2))
  qed
  with ne d show ?thesis by (simp add: ring_def)
qed

lemma pts_frame: "\<forall>a\<in>set as. h' ! a = h ! a \<Longrightarrow> pts h' as = pts h as"
  by (simp add: pts_def)

lemma Vertex_point_upd [simp]:
  "Vertex_point (v\<lparr>v_next := a\<rparr>) = Vertex_point v"
  "Vertex_point (v\<lparr>v_prev := b\<rparr>) = Vertex_point v"
  by (simp_all add: Vertex_point_def Point.defs)

lemma Vertex_new_simps [simp]:
  "Vertex_point (Vertex_new p) = p" "v_next (Vertex_new p) = None" "v_prev (Vertex_new p) = None"
  by (simp_all add: Vertex_point_def Vertex_new_def Point.defs Vertex.defs)

lemma Vertex_insert_effect:
  assumes c: "c < length h" and v: "v < length h" and vc: "v \<noteq> c"
    and n: "nxt h c = Some n" and nl: "n < length h" and nv: "n \<noteq> v"
  shows "\<exists>h'. Vertex_insert h c v = Inr h' \<and> length h' = length h \<and>
           nxt h' c = Some v \<and> nxt h' v = Some n \<and> prv h' v = Some c \<and> prv h' n = Some v \<and>
           (\<forall>a. a \<noteq> c \<and> a \<noteq> v \<longrightarrow> nxt h' a = nxt h a) \<and>
           (\<forall>a. a \<noteq> v \<and> a \<noteq> n \<longrightarrow> prv h' a = prv h a) \<and>
           (\<forall>a<length h. Vertex_point (h' ! a) = Vertex_point (h ! a)) \<and>
           (\<forall>a. a \<noteq> c \<and> a \<noteq> v \<and> a \<noteq> n \<longrightarrow> h' ! a = h ! a)"
proof -
  from n c have n': "v_next (h ! c) = Some n" by (simp add: nxt_def)
  show ?thesis
    using c v vc nl nv n'
    by (auto simp: Vertex_insert_def Let_def nxt_def prv_def nth_list_update)
qed

lemma Polygon_insert_empty:
  assumes "p_v P = None"
  shows "\<exists>h'. Polygon_insert h P p = Inr (h', P\<lparr>p_v := Some (length h), p_size := p_size P + 1\<rparr>) \<and>
           length h' = Suc (length h) \<and> ring h' [length h] \<and>
           (\<forall>a<length h. h' ! a = h ! a) \<and> Vertex_point (h' ! length h) = p"
  using assms
  by (simp add: Polygon_insert_def Let_def ring_def nxt_def prv_def nth_append)

lemma Polygon_insert_ring:
  assumes r: "ring h (c # rest)" and P: "p_v P = Some c"
  shows "\<exists>h'. Polygon_insert h P p = Inr (h', P\<lparr>p_size := p_size P + 1\<rparr>) \<and>
           length h' = Suc (length h) \<and> ring h' (c # length h # rest) \<and>
           (\<forall>a<length h. a \<notin> set (c # rest) \<longrightarrow> h' ! a = h ! a) \<and>
           (\<forall>a<length h. Vertex_point (h' ! a) = Vertex_point (h ! a)) \<and>
           Vertex_point (h' ! length h) = p"
proof -
  let ?v = "length h" and ?h0 = "h @ [Vertex_new p]"
  let ?n = "hd (rest @ [c])"
  have in_r: "\<forall>a\<in>set (c # rest). a < length h" using r ring_in_range by blast
  have r0: "ring ?h0 (c # rest)"
    by (rule ring_frame [OF r]) (use in_r in \<open>auto simp: nth_append\<close>)
  then have l0: "links ?h0 (c # rest @ [c])" and d: "distinct (c # rest)"
    by (auto simp: ring_def)
  have nx: "nxt ?h0 c = Some ?n" using l0 by (cases rest) auto
  have n_in: "?n \<in> set (c # rest)" by (cases rest) auto
  then have nl: "?n < length ?h0" and nv: "?n \<noteq> ?v" using in_r by auto
  have c: "c < length ?h0" and vc: "?v \<noteq> c" using in_r by auto
  have v: "?v < length ?h0" by simp
  from Vertex_insert_effect [OF c v vc nx nl nv]
  obtain h' where ins: "Vertex_insert ?h0 c ?v = Inr h'" and len: "length h' = length ?h0"
    and e1: "nxt h' c = Some ?v" "nxt h' ?v = Some ?n" "prv h' ?v = Some c" "prv h' ?n = Some ?v"
    and fn: "\<forall>a. a \<noteq> c \<and> a \<noteq> ?v \<longrightarrow> nxt h' a = nxt ?h0 a"
    and fp: "\<forall>a. a \<noteq> ?v \<and> a \<noteq> ?n \<longrightarrow> prv h' a = prv ?h0 a"
    and fpt: "\<forall>a<length ?h0. Vertex_point (h' ! a) = Vertex_point (?h0 ! a)"
    and fr: "\<forall>a. a \<noteq> c \<and> a \<noteq> ?v \<and> a \<noteq> ?n \<longrightarrow> h' ! a = ?h0 ! a"
    by blast
  have lrest0: "links ?h0 (rest @ [c])" using l0 links_tl by fastforce
  have dr: "distinct (rest @ [c])" using d by auto
  have lrest: "links h' (rest @ [c])"
  proof (rule links_frame [OF lrest0])
    show "\<forall>x\<in>set (butlast (rest @ [c])). nxt h' x = nxt ?h0 x"
      using fn d in_r by auto
    have "\<forall>y\<in>set (tl (rest @ [c])). y \<noteq> ?n"
      using dr by (cases rest) auto
    moreover have "\<forall>y\<in>set (tl (rest @ [c])). y \<noteq> ?v"
      using in_r by (cases rest) auto
    ultimately show "\<forall>y\<in>set (tl (rest @ [c])). prv h' y = prv ?h0 y"
      using fp by auto
  qed
  have "links h' (?v # rest @ [c])"
    using lrest e1 by (cases rest) auto
  then have "links h' (c # ?v # rest @ [c])" using e1 by simp
  moreover have "distinct (c # ?v # rest)" using d in_r by auto
  ultimately have ring': "ring h' (c # ?v # rest)" by (simp add: ring_def)
  have f1: "\<forall>a<length h. a \<notin> set (c # rest) \<longrightarrow> h' ! a = h ! a"
    using fr n_in by (auto simp: nth_append)
  have f2: "\<forall>a<length h. Vertex_point (h' ! a) = Vertex_point (h ! a)"
    using fpt by (auto simp: nth_append)
  have f3: "Vertex_point (h' ! length h) = p" using fpt by (auto simp: nth_append)
  have "Polygon_insert h P p = Inr (h', P\<lparr>p_size := p_size P + 1\<rparr>)"
    using P ins by (simp add: Polygon_insert_def Let_def)
  with len ring' f1 f2 f3 show ?thesis by simp
qed

lemma ins_after_simps [simp]:
  "ins_after [] v = [v]" "ins_after (c # rest) v = c # v # rest"
  by (simp_all add: ins_after_def)

lemma ring_order_simps [simp]:
  "ring_order [] = []" "ring_order (x # rest) = x # rev rest"
  by (simp_all add: ring_order_def)

lemma ring_order_snoc: "ring_order (xs @ [y]) = ins_after (ring_order xs) y"
  by (cases xs) simp_all

lemma foldl_ins_after: "foldl ins_after (ring_order xs) ys = ring_order (xs @ ys)"
proof (induction ys arbitrary: xs)
  case Nil
  then show ?case by simp
next
  case (Cons y ys)
  from Cons.IH [of "xs @ [y]"] show ?case by (simp add: ring_order_snoc)
qed

lemma length_ring_order [simp]: "length (ring_order xs) = length xs"
  by (cases xs) simp_all

lemma ring_order_Nil_iff [simp]: "ring_order xs = [] \<longleftrightarrow> xs = []"
  by (cases xs) simp_all

lemma Polygon_insert_poly:
  assumes "poly_at h P as"
  shows "\<exists>h' P'. Polygon_insert h P p = Inr (h', P') \<and>
           poly_at h' P' (ins_after as (length h)) \<and> length h' = Suc (length h) \<and>
           (\<forall>a<length h. a \<notin> set as \<longrightarrow> h' ! a = h ! a) \<and>
           pts h' (ins_after as (length h)) = ins_after (pts h as) p"
proof (cases as)
  case Nil
  with assms have "p_v P = None" "p_size P = 0" by (simp_all add: poly_at_def)
  with Polygon_insert_empty [OF this(1), of h p] Nil show ?thesis
    by (auto simp: poly_at_def pts_def)
next
  case (Cons c rest)
  with assms have r: "ring h (c # rest)" and P: "p_v P = Some c" and sz: "p_size P = length as"
    by (simp_all add: poly_at_def)
  have in_r: "\<forall>a\<in>set (c # rest). a < length h" using r ring_in_range by blast
  from Polygon_insert_ring [OF r P, of p]
  obtain h' where h': "Polygon_insert h P p = Inr (h', P\<lparr>p_size := p_size P + 1\<rparr>)"
    "length h' = Suc (length h)" "ring h' (c # length h # rest)"
    "\<forall>a<length h. a \<notin> set (c # rest) \<longrightarrow> h' ! a = h ! a"
    "\<forall>a<length h. Vertex_point (h' ! a) = Vertex_point (h ! a)"
    "Vertex_point (h' ! length h) = p"
    by blast
  have "poly_at h' (P\<lparr>p_size := p_size P + 1\<rparr>) (ins_after as (length h))"
    using h'(3) P sz Cons by (simp add: poly_at_def)
  moreover have "pts h' (ins_after as (length h)) = ins_after (pts h as) p"
    using h'(5,6) in_r Cons by (simp add: pts_def)
  ultimately show ?thesis using h'(1,2,4) Cons by simp
qed

lemma Polygon_insert_fresh:
  assumes "fresh_poly h0 h P as"
  shows "\<exists>h' P'. Polygon_insert h P p = Inr (h', P') \<and>
           fresh_poly h0 h' P' (ins_after as (length h)) \<and>
           pts h' (ins_after as (length h)) = ins_after (pts h as) p"
proof -
  from assms have pa: "poly_at h P as" and ge: "\<forall>a\<in>set as. length h0 \<le> a"
    and le: "length h0 \<le> length h" and fr: "\<forall>a<length h0. h ! a = h0 ! a"
    by (simp_all add: fresh_poly_def ext_def)
  from Polygon_insert_poly [OF pa, of p]
  obtain h' P' where i: "Polygon_insert h P p = Inr (h', P')"
    "poly_at h' P' (ins_after as (length h))" "length h' = Suc (length h)"
    "\<forall>a<length h. a \<notin> set as \<longrightarrow> h' ! a = h ! a"
    "pts h' (ins_after as (length h)) = ins_after (pts h as) p"
    by blast
  have "\<forall>a\<in>set (ins_after as (length h)). length h0 \<le> a"
    using ge le by (cases as) auto
  moreover have "\<forall>a<length h0. h' ! a = h0 ! a"
  proof (intro allI impI)
    fix a assume a: "a < length h0"
    then have "a \<notin> set as" using ge by auto
    with a le i(4) fr show "h' ! a = h0 ! a" by simp
  qed
  ultimately have "fresh_poly h0 h' P' (ins_after as (length h))"
    using i(2,3) le by (simp add: fresh_poly_def ext_def)
  with i(1,5) show ?thesis by blast
qed

lemma fresh_poly_new: "fresh_poly h h Polygon_new []"
  by (simp add: fresh_poly_def ext_def poly_at_def Polygon_new_def)

lemma load_Some: "a < length h \<Longrightarrow> load h (Some a) = Inr (h ! a)"
  by (simp add: load_def)

lemma pts_nth: "k < length bs \<Longrightarrow> pts h bs ! k = Vertex_point (h ! (bs ! k))"
  by (simp add: pts_def)

lemma length_pts [simp]: "length (pts h bs) = length bs"
  by (simp add: pts_def)

lemma ext_old: "ext h0 h \<Longrightarrow> a < length h0 \<Longrightarrow> a < length h \<and> h ! a = h0 ! a"
  by (simp add: ext_def)

lemma fresh_ext: "fresh_poly h0 h P as \<Longrightarrow> ext h0 h"
  by (simp add: fresh_poly_def)

lemma fresh_old:
  "fresh_poly h0 h P as \<Longrightarrow> a < length h0 \<Longrightarrow> a < length h \<and> h ! a = h0 ! a"
  by (simp add: fresh_poly_def ext_def)

lemma copy_loop:
  assumes r: "ring h0 bs"
  shows "k < length bs \<Longrightarrow> fresh_poly h0 h P as \<Longrightarrow>
     \<exists>h' P' as'. Polygon_copy_loop (Some (hd bs)) (Some (bs ! k)) (h, P) = Some (Inr (h', P')) \<and>
        fresh_poly h0 h' P' as' \<and>
        pts h' as' = foldl ins_after (pts h as) (drop k (pts h0 bs))"
proof (induction "length bs - k" arbitrary: k h P as)
  case 0
  then show ?case by simp
next
  case (Suc m)
  let ?c = "bs ! k"
  have c0: "?c < length h0" using r Suc.prems(1) ring_in_range by auto
  from fresh_old [OF Suc.prems(2) c0] have c: "?c < length h" and hc: "h ! ?c = h0 ! ?c" by simp_all
  from Polygon_insert_fresh [OF Suc.prems(2), of "Vertex_point (h0 ! ?c)"]
  obtain h1 P1 where i: "Polygon_insert h P (Vertex_point (h0 ! ?c)) = Inr (h1, P1)"
    and f1: "fresh_poly h0 h1 P1 (ins_after as (length h))"
    and p1: "pts h1 (ins_after as (length h)) = ins_after (pts h as) (Vertex_point (h0 ! ?c))"
    by blast
  from fresh_old [OF f1 c0] have c1: "?c < length h1" and hc1: "h1 ! ?c = h0 ! ?c" by simp_all
  have nx: "Vertex_cw (h0 ! ?c) = Some (bs ! (Suc k mod length bs))"
    using ring_nxt(1) [OF r Suc.prems(1)] c0 by (simp add: Vertex_cw_def nxt_def)
  have d: "distinct bs" and ne: "bs \<noteq> []" using r by (simp_all add: ring_def)
  have hd: "hd bs = bs ! 0" using ne by (simp add: hd_conv_nth)
  have dr: "drop k (pts h0 bs) = Vertex_point (h0 ! ?c) # drop (Suc k) (pts h0 bs)"
    using Suc.prems(1) by (simp add: Cons_nth_drop_Suc [symmetric] pts_nth)
  show ?case
  proof (cases "Suc k < length bs")
    case True
    then have neq: "bs ! Suc k \<noteq> bs ! 0"
    proof -
      have z: "0 < length bs" using ne by simp
      from nth_eq_iff_index_eq [OF d True z] show ?thesis by simp
    qed
    have m: "m = length bs - Suc k" using Suc.hyps(2) by simp
    from Suc.hyps(1) [OF m True f1]
    obtain h' P' as' where
      l: "Polygon_copy_loop (Some (hd bs)) (Some (bs ! Suc k)) (h1, P1) = Some (Inr (h', P'))"
      and f': "fresh_poly h0 h' P' as'"
      and p': "pts h' as' = foldl ins_after (pts h1 (ins_after as (length h))) (drop (Suc k) (pts h0 bs))"
      by blast
    have "Polygon_copy_loop (Some (hd bs)) (Some ?c) (h, P) = Some (Inr (h', P'))"
      apply (subst Polygon_copy_loop.simps)
      using True neq l i by (simp add: load_Some c hc c1 hc1 nx hd)
    moreover have "pts h' as' = foldl ins_after (pts h as) (drop k (pts h0 bs))"
      using p' p1 dr by simp
    ultimately show ?thesis using f' by blast
  next
    case False
    with Suc.prems(1) have e: "Suc k = length bs" by simp
    have "Polygon_copy_loop (Some (hd bs)) (Some ?c) (h, P) = Some (Inr (h1, P1))"
      apply (subst Polygon_copy_loop.simps)
      using e i by (simp add: load_Some c hc c1 hc1 nx hd)
    moreover have "pts h1 (ins_after as (length h)) = foldl ins_after (pts h as) (drop k (pts h0 bs))"
      using p1 dr e by simp
    ultimately show ?thesis using f1 by blast
  qed
qed

lemma pts_Nil [simp]: "pts h [] = []"
  by (simp add: pts_def)

lemma Polygon_copy_poly:
  assumes "poly_at h other bs"
  shows "\<exists>h' P' as'. Polygon_copy h other = Some (Inr (h', P')) \<and>
           fresh_poly h h' P' as' \<and> pts h' as' = ring_order (pts h bs)"
proof (cases bs)
  case Nil
  with assms have "p_v other = None" by (simp add: poly_at_def)
  then have "Polygon_copy h other = Some (Inr (h, Polygon_new))"
    by (simp add: Polygon_copy_def)
  with fresh_poly_new [of h] Nil show ?thesis by auto
next
  case (Cons b rest)
  with assms have r: "ring h bs" and v: "p_v other = Some (hd bs)"
    by (simp_all add: poly_at_def)
  have k: "0 < length bs" using Cons by simp
  from copy_loop [OF r k fresh_poly_new]
  obtain h' P' as' where
    l: "Polygon_copy_loop (Some (hd bs)) (Some (bs ! 0)) (h, Polygon_new) = Some (Inr (h', P'))"
    and f: "fresh_poly h h' P' as'"
    and p: "pts h' as' = foldl ins_after (pts h []) (drop 0 (pts h bs))"
    by blast
  have "bs ! 0 = hd bs" using Cons by simp
  with l v have "Polygon_copy h other = Some (Inr (h', P'))"
    by (simp add: Polygon_copy_def)
  moreover have "pts h' as' = ring_order (pts h bs)"
    using p foldl_ins_after [of "[]" "pts h bs"] by simp
  ultimately show ?thesis using f by blast
qed

lemma length_subject_edges [simp]: "length (subject_edges ps) = length ps"
  by (simp add: subject_edges_def)

lemma subject_edges_nth:
  "k < length ps \<Longrightarrow> subject_edges ps ! k = (ps ! k, ps ! (Suc k mod length ps))"
  by (simp add: subject_edges_def nth_rotate1)

lemma Suc_mod_less: "k < n \<Longrightarrow> Suc k mod n < (n::nat)"
  using mod_less_divisor [of n "Suc k"] by linarith

lemma cursor_facts:
  assumes r: "ring h0 bs" and k: "k < length bs" and f: "ext h0 h"
    and s: "p_v s = Some (bs ! k)"
  shows "Polygon_getPoint h s = Inr (pts h0 bs ! k)"
    and "Polygon_cw h s = Inr (Some (bs ! (Suc k mod length bs)))"
    and "load h (Some (bs ! (Suc k mod length bs))) = Inr (h0 ! (bs ! (Suc k mod length bs)))"
    and "Polygon_edge h s = Inr \<lparr>org = pts h0 bs ! k, dest = pts h0 bs ! (Suc k mod length bs)\<rparr>"
    and "Polygon_advance h s CLOCKWISE = Inr (s\<lparr>p_v := Some (bs ! (Suc k mod length bs))\<rparr>)"
proof -
  let ?c = "bs ! k" and ?n = "bs ! (Suc k mod length bs)"
  have k': "Suc k mod length bs < length bs" using k by (rule Suc_mod_less)
  have c0: "?c < length h0" and n0: "?n < length h0"
    using r k k' ring_in_range by auto
  from ext_old [OF f c0] have c: "?c < length h" "h ! ?c = h0 ! ?c" by simp_all
  from ext_old [OF f n0] have n: "?n < length h" "h ! ?n = h0 ! ?n" by simp_all
  have nx: "v_next (h0 ! ?c) = Some ?n"
    using ring_nxt(1) [OF r k] c0 by (simp add: nxt_def)
  show "Polygon_getPoint h s = Inr (pts h0 bs ! k)"
    using s c k by (simp add: Polygon_getPoint_def load_Some pts_nth)
  show "Polygon_cw h s = Inr (Some ?n)"
    using s c nx by (simp add: Polygon_cw_def load_Some Vertex_cw_def)
  show "load h (Some ?n) = Inr (h0 ! ?n)"
    using n by (simp add: load_Some)
  show "Polygon_edge h s = Inr \<lparr>org = pts h0 bs ! k, dest = pts h0 bs ! (Suc k mod length bs)\<rparr>"
    using s c n nx k k' by (simp add: Polygon_edge_def load_Some Vertex_cw_def pts_nth)
  show "Polygon_advance h s CLOCKWISE = Inr (s\<lparr>p_v := Some ?n\<rparr>)"
    using s c nx by (simp add: Polygon_advance_def load_Some Vertex_neighbor_def Vertex_cw_def)
qed

lemma clip_body_emit:
  assumes r: "ring h0 bs" and k: "k < length bs" and f: "fresh_poly h0 h p as"
    and s: "p_v s = Some (bs ! k)"
  shows "case emit e (pts h0 bs ! k) (pts h0 bs ! (Suc k mod length bs)) of
           Inl err \<Rightarrow> clip_body e h s p = Inl err
         | Inr ps \<Rightarrow> (\<exists>h' p' as'. clip_body e h s p = Inr (h', p') \<and>
                        fresh_poly h0 h' p' as' \<and> pts h' as' = foldl ins_after (pts h as) ps)"
proof -
  let ?og = "pts h0 bs ! k" and ?d = "pts h0 bs ! (Suc k mod length bs)"
  note cf = cursor_facts [OF r k fresh_ext [OF f] s]
  have k': "Suc k mod length bs < length bs" using k by (rule Suc_mod_less)
  have dv: "Vertex_point (h0 ! (bs ! (Suc k mod length bs))) = ?d"
    using k' by (simp add: pts_nth)
  have ins0: "\<exists>as'. fresh_poly h0 h p as' \<and> pts h as' = pts h as"
    using f by blast
  have ins1: "\<exists>h' p' as'. Polygon_insert h p x = Inr (h', p') \<and>
        fresh_poly h0 h' p' as' \<and> pts h' as' = foldl ins_after (pts h as) [x]" for x
    using Polygon_insert_fresh [OF f, of x] by auto
  have ins2: "\<exists>h' p' as'. (case Polygon_insert h p x of Inl err \<Rightarrow> Inl err
                               | Inr (h', p') \<Rightarrow> Polygon_insert h' p' y) = Inr (h', p') \<and>
        fresh_poly h0 h' p' as' \<and> pts h' as' = foldl ins_after (pts h as) [x, y]" for x y
  proof -
    from Polygon_insert_fresh [OF f, of x] obtain h1 p1 where
      a: "Polygon_insert h p x = Inr (h1, p1)" "fresh_poly h0 h1 p1 (ins_after as (length h))"
         "pts h1 (ins_after as (length h)) = ins_after (pts h as) x" by blast
    from Polygon_insert_fresh [OF a(2), of y] obtain h2 p2 where
      b: "Polygon_insert h1 p1 y = Inr (h2, p2)"
         "fresh_poly h0 h2 p2 (ins_after (ins_after as (length h)) (length h1))"
         "pts h2 (ins_after (ins_after as (length h)) (length h1)) = ins_after (pts h1 (ins_after as (length h))) y"
      by blast
    from a b show ?thesis by auto
  qed
  show ?thesis
    using ins0 ins1 ins2
    by (auto simp: emit_def clip_body_def cf Let_def dv split: option.splits)
qed

lemma emit_all_drop:
  "i < length es \<Longrightarrow>
   emit_all e (drop i es) =
     (case emit e (fst (es ! i)) (snd (es ! i)) of
        Inl err \<Rightarrow> Inl err
      | Inr ps \<Rightarrow> (case emit_all e (drop (Suc i) es) of
                     Inl err \<Rightarrow> Inl err | Inr qs \<Rightarrow> Inr (ps @ qs)))"
  by (cases "es ! i") (simp add: Cons_nth_drop_Suc [symmetric])

lemma clip_loop_emit:
  assumes r: "ring h0 bs" and sz: "p_size s = length bs"
  shows "i \<le> length bs \<Longrightarrow> fresh_poly h0 h p as \<Longrightarrow>
     case emit_all e (drop i (subject_edges (pts h0 bs))) of
       Inl err \<Rightarrow> clipPolygonToEdge_loop e i h (s\<lparr>p_v := Some (bs ! (i mod length bs))\<rparr>) p = Inl err
     | Inr ps \<Rightarrow> (\<exists>h' p' as'.
          clipPolygonToEdge_loop e i h (s\<lparr>p_v := Some (bs ! (i mod length bs))\<rparr>) p
            = Inr (h', s\<lparr>p_v := Some (hd bs)\<rparr>, p') \<and>
          fresh_poly h0 h' p' as' \<and> pts h' as' = foldl ins_after (pts h as) ps)"
proof (induction "length bs - i" arbitrary: i h p as)
  case 0
  then have i: "i = length bs" by simp
  have ne: "bs \<noteq> []" using r by (simp add: ring_def)
  have "clipPolygonToEdge_loop e i h (s\<lparr>p_v := Some (bs ! (i mod length bs))\<rparr>) p
        = Inr (h, s\<lparr>p_v := Some (hd bs)\<rparr>, p)"
    apply (subst clipPolygonToEdge_loop.simps)
    using i sz ne by (simp add: hd_conv_nth)
  with 0(3) i show ?case by auto
next
  case (Suc m)
  then have i: "i < length bs" and m: "m = length bs - Suc i" and i': "Suc i \<le> length bs"
    by simp_all
  let ?s = "s\<lparr>p_v := Some (bs ! (i mod length bs))\<rparr>"
  let ?og = "pts h0 bs ! i" and ?d = "pts h0 bs ! (Suc i mod length bs)"
  have sv: "p_v ?s = Some (bs ! i)" using i by simp
  note cf = cursor_facts [OF r i _ sv]
  have ed: "subject_edges (pts h0 bs) ! i = (?og, ?d)"
    using i by (simp add: subject_edges_nth)
  have unf: "emit_all e (drop i (subject_edges (pts h0 bs))) =
     (case emit e ?og ?d of
        Inl err \<Rightarrow> Inl err
      | Inr ps \<Rightarrow> (case emit_all e (drop (Suc i) (subject_edges (pts h0 bs))) of
                     Inl err \<Rightarrow> Inl err | Inr qs \<Rightarrow> Inr (ps @ qs)))"
    using emit_all_drop [of i "subject_edges (pts h0 bs)" e] i ed by simp
  have lp: "clipPolygonToEdge_loop e i h ?s p =
     (case clip_body e h ?s p of
        Inl err \<Rightarrow> Inl err
      | Inr (h', p') \<Rightarrow>
          (case Polygon_advance h' ?s CLOCKWISE of
             Inl err \<Rightarrow> Inl err
           | Inr s' \<Rightarrow> clipPolygonToEdge_loop e (Suc i) h' s' p'))"
    apply (subst clipPolygonToEdge_loop.simps)
    using i sz by simp
  show ?case
  proof (cases "emit e ?og ?d")
    case (Inl err)
    with clip_body_emit [OF r i Suc.prems(2) sv, of e]
    have "clip_body e h ?s p = Inl err" by simp
    with lp unf Inl show ?thesis by simp
  next
    case (Inr ps)
    with clip_body_emit [OF r i Suc.prems(2) sv, of e]
    obtain h1 p1 as1 where b: "clip_body e h ?s p = Inr (h1, p1)"
      and f1: "fresh_poly h0 h1 p1 as1" and p1: "pts h1 as1 = foldl ins_after (pts h as) ps"
      by auto
    have adv: "Polygon_advance h1 ?s CLOCKWISE = Inr (s\<lparr>p_v := Some (bs ! (Suc i mod length bs))\<rparr>)"
      using cf(5) [OF fresh_ext [OF f1]] by simp
    have lp': "clipPolygonToEdge_loop e i h ?s p =
        clipPolygonToEdge_loop e (Suc i) h1 (s\<lparr>p_v := Some (bs ! (Suc i mod length bs))\<rparr>) p1"
      using lp b adv by simp
    from Suc.hyps(1) [OF m i' f1] p1 unf Inr lp'
    show ?thesis by (auto split: sum.splits)
  qed
qed

lemma clip_loop_rounds:
  assumes r: "ring h bs" and sz: "p_size s = length bs"
    and run: "clipPolygonToEdge_loop e 0 h (s\<lparr>p_v := Some (bs ! (0 mod length bs))\<rparr>) Polygon_new
                = Inr res"
  shows "i \<le> length bs \<Longrightarrow>
     \<exists>hi pi as. fresh_poly h hi pi as \<and>
       clipPolygonToEdge_loop e i hi (s\<lparr>p_v := Some (bs ! (i mod length bs))\<rparr>) pi = Inr res"
proof (induction i)
  case 0
  with run fresh_poly_new [of h] show ?case by blast
next
  case (Suc i)
  then have i: "i < length bs" by simp
  from Suc obtain hi pi as where f: "fresh_poly h hi pi as"
    and l: "clipPolygonToEdge_loop e i hi (s\<lparr>p_v := Some (bs ! (i mod length bs))\<rparr>) pi = Inr res"
    by auto
  let ?s = "s\<lparr>p_v := Some (bs ! (i mod length bs))\<rparr>"
  have sv: "p_v ?s = Some (bs ! i)" using i by simp
  have lp: "clipPolygonToEdge_loop e i hi ?s pi =
     (case clip_body e hi ?s pi of
        Inl err \<Rightarrow> Inl err
      | Inr (h', p') \<Rightarrow>
          (case Polygon_advance h' ?s CLOCKWISE of
             Inl err \<Rightarrow> Inl err
           | Inr s' \<Rightarrow> clipPolygonToEdge_loop e (Suc i) h' s' p'))"
    by (subst clipPolygonToEdge_loop.simps) (use i sz in simp)
  show ?case
  proof (cases "emit e (pts h bs ! i) (pts h bs ! (Suc i mod length bs))")
    case (Inl err)
    with clip_body_emit [OF r i f sv, of e] have "clip_body e hi ?s pi = Inl err" by simp
    with lp l show ?thesis by simp
  next
    case (Inr ps)
    with clip_body_emit [OF r i f sv, of e] obtain h1 p1 as1 where
      b: "clip_body e hi ?s pi = Inr (h1, p1)" and f1: "fresh_poly h h1 p1 as1"
      by auto
    have "Polygon_advance h1 ?s CLOCKWISE = Inr (s\<lparr>p_v := Some (bs ! (Suc i mod length bs))\<rparr>)"
      using cursor_facts(5) [OF r i fresh_ext [OF f1] sv] by simp
    with lp b l f1 show ?thesis by auto
  qed
qed

lemma emit_error: "emit e og d = Inl err \<Longrightarrow> err = UninitialisedRead"
  by (auto simp: emit_def Let_def split: if_splits option.splits)

lemma emit_all_error: "emit_all e es = Inl err \<Longrightarrow> err = UninitialisedRead"
proof (induction es)
  case Nil
  then show ?case by simp
next
  case (Cons a es)
  then show ?case
    by (cases a) (auto split: sum.splits dest: emit_error)
qed


lemma poly_at_size: "poly_at h P as \<Longrightarrow> p_size P = length as"
  by (simp add: poly_at_def split: if_splits)

lemma fresh_poly_at: "fresh_poly h0 h P as \<Longrightarrow> poly_at h P as"
  by (simp add: fresh_poly_def)

lemma clipPolygonToEdge_poly:
  assumes s: "poly_at h s bs"
  shows "case emit_all e (subject_edges (pts h bs)) of
           Inl err \<Rightarrow> clipPolygonToEdge h s e = Inl err
         | Inr ps \<Rightarrow> (\<exists>h' r as'. clipPolygonToEdge h s e = Inr (ps \<noteq> [], r, s, h') \<and>
                        fresh_poly h h' r as' \<and> pts h' as' = ring_order ps)"
proof (cases "bs = []")
  case True
  with s have "p_size s = 0" by (simp add: poly_at_def)
  then have "clipPolygonToEdge_loop e 0 h s Polygon_new = Inr (h, s, Polygon_new)"
    by (subst clipPolygonToEdge_loop.simps) simp
  then have "clipPolygonToEdge h s e = Inr (False, Polygon_new, s, h)"
    by (simp add: clipPolygonToEdge_def Polygon_new_def)
  with True fresh_poly_new [of h] show ?thesis
    by (auto simp: subject_edges_def)
next
  case False
  with s have r: "ring h bs" and sv: "p_v s = Some (hd bs)" and sz: "p_size s = length bs"
    by (simp_all add: poly_at_def)
  have s0: "s\<lparr>p_v := Some (bs ! (0 mod length bs))\<rparr> = s" "s\<lparr>p_v := Some (hd bs)\<rparr> = s"
    using sv False by (simp_all add: hd_conv_nth)
  note l = clip_loop_emit [OF r sz, of 0 h Polygon_new "[]" e, OF _ fresh_poly_new]
  show ?thesis
  proof (cases "emit_all e (subject_edges (pts h bs))")
    case (Inl err)
    with l s0 have "clipPolygonToEdge_loop e 0 h s Polygon_new = Inl err" by simp
    with Inl show ?thesis by (simp add: clipPolygonToEdge_def)
  next
    case (Inr ps)
    with l s0 obtain h' p' as' where
      lp: "clipPolygonToEdge_loop e 0 h s Polygon_new = Inr (h', s, p')"
      and f: "fresh_poly h h' p' as'" and p: "pts h' as' = foldl ins_after (pts h []) ps"
      by auto
    have p': "pts h' as' = ring_order ps"
      using p foldl_ins_after [of "[]" ps] by simp
    have "p_size p' = length as'" using poly_at_size [OF fresh_poly_at [OF f]] .
    also have "\<dots> = length ps" using arg_cong [OF p', of length] by simp
    finally have "(0 < p_size p') = (ps \<noteq> [])" by simp
    with lp have "clipPolygonToEdge h s e = Inr (ps \<noteq> [], p', s, h')"
      by (simp add: clipPolygonToEdge_def)
    with Inr f p' show ?thesis by auto
  qed
qed

lemma emit_spec:
  "emit e og d = Inr ps \<Longrightarrow> ps = spec_clip_edge (\<lambda>p. Point_classify p e \<noteq> LEFT) e (og, d)"
  by (auto simp: emit_def spec_clip_edge_def Let_def
           split: if_splits option.splits dest: Edge_intersect_line_param)

lemma emit_all_spec:
  "emit_all e es = Inr ps \<Longrightarrow>
   ps = concat (map (spec_clip_edge (\<lambda>p. Point_classify p e \<noteq> LEFT) e) es)"
proof (induction es arbitrary: ps)
  case Nil
  then show ?case by simp
next
  case (Cons a es)
  obtain og d where a: "a = (og, d)" by (cases a)
  from Cons.prems a obtain p1 p2 where
    e1: "emit e og d = Inr p1" and e2: "emit_all e es = Inr p2" and ps: "ps = p1 @ p2"
    by (auto split: sum.splits)
  from emit_spec [OF e1] Cons.IH [OF e2] ps a show ?case by simp
qed

lemma poly_at_ext:
  assumes "poly_at h P as" and "ext h h'"
  shows "poly_at h' P as" and "pts h' as = pts h as"
proof -
  have in_r: "\<forall>a\<in>set as. a < length h"
  proof (cases "as = []")
    case True then show ?thesis by simp
  next
    case False
    with assms(1) have "ring h as" by (simp add: poly_at_def)
    then show ?thesis using ring_in_range by blast
  qed
  then have same: "\<forall>a\<in>set as. a < length h' \<and> h' ! a = h ! a"
    using assms(2) by (auto simp: ext_def)
  show "poly_at h' P as"
  proof (cases "as = []")
    case True with assms(1) show ?thesis by (simp add: poly_at_def)
  next
    case False
    with assms(1) have "ring h as" by (simp add: poly_at_def)
    from ring_frame [OF this same] assms(1) False show ?thesis by (simp add: poly_at_def)
  qed
  show "pts h' as = pts h as" using same by (simp add: pts_def)
qed

lemma ext_refl: "ext h h"
  by (simp add: ext_def)

lemma ext_trans: "ext h0 h1 \<Longrightarrow> ext h1 h2 \<Longrightarrow> ext h0 h2"
  by (auto simp: ext_def)

lemma ring_rotate1: "ring h as \<Longrightarrow> ring h (rotate1 as)"
proof -
  assume r: "ring h as"
  then obtain a rest where as: "as = a # rest" by (cases as) (auto simp: ring_def)
  show ?thesis
  proof (cases rest)
    case Nil
    with r as show ?thesis by simp
  next
    case (Cons b rest')
    from r as Cons have l: "links h (a # b # rest' @ [a])" and d: "distinct (a # b # rest')"
      by (simp_all add: ring_def)
    then have "nxt h a = Some b" "prv h b = Some a" "links h ((b # rest') @ [a])" by simp_all
    from links_snoc [OF this(3) this(1) this(2)]
    have "links h (rotate1 as @ [hd (rotate1 as)])" using as Cons by simp
    moreover have "distinct (rotate1 as)" using d as Cons by simp
    ultimately show ?thesis using as by (simp add: ring_def)
  qed
qed

lemma ring_rotate: "ring h as \<Longrightarrow> ring h (rotate n as)"
  by (induction n) (simp_all add: ring_rotate1)

lemma walk_ring:
  assumes r: "ring h as"
  shows "k < length as \<Longrightarrow> walk h j (Some (as ! k)) = Some (as ! ((k + j) mod length as))"
proof (induction j arbitrary: k)
  case 0
  then show ?case by simp
next
  case (Suc j)
  have k': "Suc k mod length as < length as" using Suc.prems by (rule Suc_mod_less)
  have "walk h (Suc j) (Some (as ! k)) = walk h j (Some (as ! (Suc k mod length as)))"
    using ring_nxt(1) [OF r Suc.prems] by simp
  also have "\<dots> = Some (as ! ((Suc k mod length as + j) mod length as))"
    by (rule Suc.IH [OF k'])
  also have "(Suc k mod length as + j) mod length as = (k + Suc j) mod length as"
    by (simp add: mod_add_left_eq)
  finally show ?case .
qed

lemma ring_prv:
  assumes r: "ring h as" and k: "k < length as"
  shows "\<exists>j<length as. prv h (as ! k) = Some (as ! j) \<and> nxt h (as ! j) = Some (as ! k)"
proof -
  have pos: "0 < length as" using k by linarith
  let ?j = "(k + (length as - 1)) mod length as"
  have j: "?j < length as" using pos by simp
  have "Suc ?j mod length as = k"
  proof -
    have "Suc ?j mod length as = (Suc (k + (length as - 1))) mod length as"
      by (simp add: mod_Suc_eq)
    also have "Suc (k + (length as - 1)) = k + length as" using pos by simp
    also have "(k + length as) mod length as = k" using k by simp
    finally show ?thesis .
  qed
  with ring_nxt [OF r j] have "prv h (as ! k) = Some (as ! ?j)" "nxt h (as ! ?j) = Some (as ! k)"
    by simp_all
  with j show ?thesis by blast
qed

lemma poly_at_ring_inv:
  assumes "poly_at h P as"
  shows "ring_inv h P"
proof (cases "as = []")
  case True
  with assms show ?thesis by (simp add: poly_at_def ring_inv_def)
next
  case False
  with assms have r: "ring h as" and v: "p_v P = Some (hd as)" and sz: "p_size P = length as"
    by (simp_all add: poly_at_def)
  have hd: "hd as = as ! 0" using False by (simp add: hd_conv_nth)
  have pos: "0 < length as" using False by simp
  have "case walk h k (Some (hd as)) of
               None \<Rightarrow> False
             | Some w \<Rightarrow>
                 walk h (length as) (Some w) = Some w \<and>
                 (case nxt h w of None \<Rightarrow> False | Some w' \<Rightarrow> prv h w' = Some w) \<and>
                 (case prv h w of None \<Rightarrow> False | Some w' \<Rightarrow> nxt h w' = Some w)"
    if k: "k < length as" for k
  proof -
    have w: "walk h k (Some (hd as)) = Some (as ! k)"
      using walk_ring [OF r pos, of k] k hd by simp
    have cyc: "walk h (length as) (Some (as ! k)) = Some (as ! k)"
      using walk_ring [OF r k, of "length as"] k by simp
    from ring_prv [OF r k] obtain j where
      j: "prv h (as ! k) = Some (as ! j)" "nxt h (as ! j) = Some (as ! k)" by blast
    show ?thesis
      using w cyc ring_nxt [OF r k] j by simp
  qed
  then show ?thesis unfolding ring_inv_def v sz using pos by simp
qed

lemma Polygon_ok_ring_inv: "Polygon_ok h P \<Longrightarrow> ring_inv h P"
  using ok_poly_at poly_at_ring_inv by blast

lemma rotate_last_butlast: "as \<noteq> [] \<Longrightarrow> rotate (length as - 1) as = last as # butlast as"
proof -
  assume ne: "as \<noteq> []"
  let ?ys = "last as # butlast as"
  have r1: "rotate1 ?ys = as" using ne by simp
  have len: "length ?ys = length as" using ne by simp
  have "rotate (length as - 1) as = rotate (length as - 1) (rotate1 ?ys)" using r1 by simp
  also have "\<dots> = rotate (Suc (length as - 1)) ?ys"
    by (simp only: rotate_Suc rotate1_rotate_swap)
  also have "Suc (length as - 1) = length ?ys" using ne by simp
  also have "rotate (length ?ys) ?ys = ?ys" by (rule rotate_id) simp
  finally show ?thesis .
qed

lemma Polygon_advance_cw:
  assumes pa: "poly_at h P as" and ne: "as \<noteq> []"
  shows "Polygon_advance h P CLOCKWISE = Inr (P\<lparr>p_v := Some (hd (rotate1 as))\<rparr>)"
    and "poly_at h (P\<lparr>p_v := Some (hd (rotate1 as))\<rparr>) (rotate1 as)"
proof -
  from pa ne have r: "ring h as" and v: "p_v P = Some (hd as)" and sz: "p_size P = length as"
    by (simp_all add: poly_at_def)
  have k: "0 < length as" using ne by simp
  have hd0: "hd as = as ! 0" using ne by (simp add: hd_conv_nth)
  have hd1: "hd (rotate1 as) = as ! (Suc 0 mod length as)"
  proof (cases as)
    case Nil with ne show ?thesis by simp
  next
    case (Cons a rest)
    then show ?thesis by (cases rest) simp_all
  qed
  from cursor_facts(5) [OF r k ext_refl, of P] v hd0 hd1
  show "Polygon_advance h P CLOCKWISE = Inr (P\<lparr>p_v := Some (hd (rotate1 as))\<rparr>)" by simp
  from ring_rotate1 [OF r] ne sz
  show "poly_at h (P\<lparr>p_v := Some (hd (rotate1 as))\<rparr>) (rotate1 as)"
    by (simp add: poly_at_def)
qed

lemma Polygon_advance_ccw:
  assumes pa: "poly_at h P as" and ne: "as \<noteq> []"
  shows "Polygon_advance h P COUNTER_CLOCKWISE = Inr (P\<lparr>p_v := Some (last as)\<rparr>)"
    and "poly_at h (P\<lparr>p_v := Some (last as)\<rparr>) (last as # butlast as)"
proof -
  from pa ne have r: "ring h as" and v: "p_v P = Some (hd as)" and sz: "p_size P = length as"
    by (simp_all add: poly_at_def)
  have hd0: "hd as = as ! 0" using ne by (simp add: hd_conv_nth)
  have k: "length as - 1 < length as" using ne by simp
  have "Suc (length as - 1) mod length as = 0" using ne by simp
  with ring_nxt(2) [OF r k] have "prv h (as ! 0) = Some (as ! (length as - 1))" by simp
  then have pv: "prv h (hd as) = Some (last as)" using ne hd0 by (simp add: last_conv_nth)
  have c: "hd as < length h" using ring_in_range [OF r] ne by simp
  from pv c have "v_prev (h ! hd as) = Some (last as)" by (simp add: prv_def)
  with v c show "Polygon_advance h P COUNTER_CLOCKWISE = Inr (P\<lparr>p_v := Some (last as)\<rparr>)"
    by (simp add: Polygon_advance_def load_Some Vertex_neighbor_def Vertex_ccw_def)
  from ring_rotate [OF r, of "length as - 1"] rotate_last_butlast [OF ne]
  have "ring h (last as # butlast as)" by simp
  with sz ne show "poly_at h (P\<lparr>p_v := Some (last as)\<rparr>) (last as # butlast as)"
    by (simp add: poly_at_def)
qed

lemma buildPolygon_fresh:
  "fresh_poly h0 h P as \<Longrightarrow>
   \<exists>h' P' as'. buildPolygon h P ps = Inr (h', P') \<and> fresh_poly h0 h' P' as' \<and>
      pts h' as' = foldl ins_after (pts h as) ps"
proof (induction ps arbitrary: h P as)
  case Nil
  then show ?case by auto
next
  case (Cons x ps)
  from Polygon_insert_fresh [OF Cons.prems, of x] obtain h1 P1 where
    i: "Polygon_insert h P x = Inr (h1, P1)" "fresh_poly h0 h1 P1 (ins_after as (length h))"
       "pts h1 (ins_after as (length h)) = ins_after (pts h as) x" by blast
  from Cons.IH [OF i(2)] i(1,3) show ?case by auto
qed

lemma clip_steps_error: "clip_steps k es qs = Inl err \<Longrightarrow> err = UninitialisedRead"
proof (induction es arbitrary: k qs)
  case Nil
  then show ?case by simp
next
  case (Cons e es)
  then show ?case by (auto split: sum.splits if_splits dest: emit_all_error)
qed

lemma clip_steps_nonempty:
  "clip_steps k es qs = Inr (Inr rs) \<Longrightarrow> es \<noteq> [] \<or> qs \<noteq> [] \<Longrightarrow> rs \<noteq> []"
proof (induction es arbitrary: k qs)
  case Nil
  then show ?case by simp
next
  case (Cons e es)
  from Cons.prems(1) obtain ps where
    ps: "emit_all e (subject_edges qs) = Inr ps" "ps \<noteq> []"
        "clip_steps (Suc k) es (ring_order ps) = Inr (Inr rs)"
    by (auto split: sum.splits if_splits)
  from Cons.IH [OF ps(3)] ps(2) show ?case by simp
qed

lemma clip_steps_index:
  "clip_steps k es qs = Inr (Inl j) \<Longrightarrow> k \<le> j \<and> j < k + length es"
proof (induction es arbitrary: k qs)
  case Nil
  then show ?case by simp
next
  case (Cons e es)
  then show ?case by (fastforce split: sum.splits if_splits)
qed

lemma length_cutter_edges [simp]: "length (cutter_edges cs) = length cs"
  by (simp add: cutter_edges_def)

lemma cutter_edges_nth:
  "k < length cs \<Longrightarrow> cutter_edges cs ! k = \<lparr>org = cs ! k, dest = cs ! (Suc k mod length cs)\<rparr>"
  by (simp add: cutter_edges_def subject_edges_nth)

lemma clipPolygon_loop_steps:
  assumes rc: "ring h0 cs" and sz: "p_size p = length cs"
  shows "i \<le> length cs \<Longrightarrow> ext h0 h \<Longrightarrow> poly_at h q qs \<Longrightarrow>
    (\<forall>err. clip_steps i (drop i (cutter_edges (pts h0 cs))) (pts h qs) = Inl err \<longrightarrow>
       clipPolygon_loop i h (p\<lparr>p_v := Some (cs ! (i mod length cs))\<rparr>) q = Inl err) \<and>
    (\<forall>k. clip_steps i (drop i (cutter_edges (pts h0 cs))) (pts h qs) = Inr (Inl k) \<longrightarrow>
       (\<exists>h'. clipPolygon_loop i h (p\<lparr>p_v := Some (cs ! (i mod length cs))\<rparr>) q
               = Inr (False, None, p\<lparr>p_v := Some (cs ! k)\<rparr>, h') \<and> ext h h')) \<and>
    (\<forall>rs. clip_steps i (drop i (cutter_edges (pts h0 cs))) (pts h qs) = Inr (Inr rs) \<longrightarrow>
       (\<exists>h' r as'. clipPolygon_loop i h (p\<lparr>p_v := Some (cs ! (i mod length cs))\<rparr>) q
               = Inr (True, Some r, p\<lparr>p_v := Some (hd cs)\<rparr>, h') \<and> ext h h' \<and>
               poly_at h' r as' \<and> pts h' as' = rs))"
proof (induction "length cs - i" arbitrary: i h q qs)
  case 0
  then have i: "i = length cs" by simp
  have ne: "cs \<noteq> []" using rc by (simp add: ring_def)
  have "clipPolygon_loop i h (p\<lparr>p_v := Some (cs ! (i mod length cs))\<rparr>) q
        = Inr (True, Some q, p\<lparr>p_v := Some (hd cs)\<rparr>, h)"
    by (subst clipPolygon_loop.simps) (use i sz ne in \<open>simp add: hd_conv_nth\<close>)
  with i 0(4) ext_refl [of h] show ?case by auto
next
  case (Suc m)
  then have i: "i < length cs" and m: "m = length cs - Suc i" and i': "Suc i \<le> length cs"
    by simp_all
  let ?p = "p\<lparr>p_v := Some (cs ! (i mod length cs))\<rparr>"
  let ?e = "\<lparr>org = pts h0 cs ! i, dest = pts h0 cs ! (Suc i mod length cs)\<rparr>"
  have pv: "p_v ?p = Some (cs ! i)" using i by simp
  have pi: "?p = p\<lparr>p_v := Some (cs ! i)\<rparr>" using i by simp
  note cf = cursor_facts [OF rc i _ pv]
  have ed: "Polygon_edge h ?p = Inr ?e" by (rule cf(4) [OF Suc.prems(2)])
  have dr: "drop i (cutter_edges (pts h0 cs)) = ?e # drop (Suc i) (cutter_edges (pts h0 cs))"
    using i by (simp add: Cons_nth_drop_Suc [symmetric] cutter_edges_nth)
  have lp: "clipPolygon_loop i h ?p q =
     (case clipPolygonToEdge h q ?e of
        Inl err \<Rightarrow> Inl err
      | Inr (nonEmpty, r, q', h') \<Rightarrow>
          if \<not> nonEmpty then Inr (False, None, ?p, h')
          else (case Polygon_advance h' ?p CLOCKWISE of
                  Inl err \<Rightarrow> Inl err
                | Inr p' \<Rightarrow> clipPolygon_loop (Suc i) h' p' r))"
    by (subst clipPolygon_loop.simps) (use i sz ed in simp)
  show ?case
  proof (cases "emit_all ?e (subject_edges (pts h qs))")
    case (Inl err)
    with clipPolygonToEdge_poly [OF Suc.prems(3), of ?e]
    have "clipPolygonToEdge h q ?e = Inl err" by simp
    with lp have "clipPolygon_loop i h ?p q = Inl err" by simp
    with dr Inl show ?thesis by simp
  next
    case (Inr ps)
    with clipPolygonToEdge_poly [OF Suc.prems(3), of ?e]
    obtain h1 r1 as1 where c: "clipPolygonToEdge h q ?e = Inr (ps \<noteq> [], r1, q, h1)"
      and f1: "fresh_poly h h1 r1 as1" and p1: "pts h1 as1 = ring_order ps"
      by auto
    have e1: "ext h h1" using f1 by (rule fresh_ext)
    show ?thesis
    proof (cases "ps = []")
      case True
      with lp c have "clipPolygon_loop i h ?p q = Inr (False, None, ?p, h1)" by simp
      with dr Inr True pi e1 show ?thesis by simp
    next
      case False
      have e01: "ext h0 h1" using ext_trans [OF Suc.prems(2) e1] .
      have adv: "Polygon_advance h1 ?p CLOCKWISE = Inr (p\<lparr>p_v := Some (cs ! (Suc i mod length cs))\<rparr>)"
        using cf(5) [OF e01] by simp
      have lp': "clipPolygon_loop i h ?p q =
          clipPolygon_loop (Suc i) h1 (p\<lparr>p_v := Some (cs ! (Suc i mod length cs))\<rparr>) r1"
        using lp c adv False by simp
      have st: "clip_steps i (drop i (cutter_edges (pts h0 cs))) (pts h qs) =
                clip_steps (Suc i) (drop (Suc i) (cutter_edges (pts h0 cs))) (pts h1 as1)"
        using dr Inr False p1 by simp
      from Suc.hyps(1) [OF m i' e01 fresh_poly_at [OF f1]]
      show ?thesis unfolding lp' st using e1 ext_trans by blast
    qed
  qed
qed

lemma clipPolygon_loop_result:
  "clipPolygon_loop i hq pq q = Inr (fl, res, p', h') \<Longrightarrow>
     (fl \<longrightarrow> (\<exists>r. res = Some r)) \<and>
     (\<not> fl \<longrightarrow> res = None \<and>
        (\<exists>e q0 h0 r q'. Polygon_edge h0 p' = Inr e \<and>
           clipPolygonToEdge h0 q0 e = Inr (False, r, q', h')))"
proof (induction i hq pq q rule: clipPolygon_loop.induct)
  case (1 i h p q)
  show ?case
  proof (cases "i < p_size p")
    case False
    with "1.prems" show ?thesis by (subst (asm) clipPolygon_loop.simps) auto
  next
    case True
    from "1.prems" True obtain e where e: "Polygon_edge h p = Inr e"
      by (subst (asm) clipPolygon_loop.simps) (auto split: sum.splits)
    from "1.prems" True e obtain ne r q1 h1 where c: "clipPolygonToEdge h q e = Inr (ne, r, q1, h1)"
      by (subst (asm) clipPolygon_loop.simps) (auto split: sum.splits)
    show ?thesis
    proof (cases ne)
      case False
      with "1.prems" True e c have "fl = False" "res = None" "p' = p" "h' = h1"
        by (subst (asm) clipPolygon_loop.simps, simp)+
      moreover have "\<exists>e q0 h0 r q'. Polygon_edge h0 p = Inr e \<and>
           clipPolygonToEdge h0 q0 e = Inr (False, r, q', h1)"
        using e c False
        by (intro exI [of _ e] exI [of _ q] exI [of _ h] exI [of _ r] exI [of _ q1]) simp
      ultimately show ?thesis by simp
    next
      case ne: True
      from "1.prems" True e c ne obtain p1 where a: "Polygon_advance h1 p CLOCKWISE = Inr p1"
        by (subst (asm) clipPolygon_loop.simps) (auto split: sum.splits)
      from "1.prems" True e c ne a
      have l: "clipPolygon_loop (Suc i) h1 p1 r = Inr (fl, res, p', h')"
        by (subst (asm) clipPolygon_loop.simps) simp
      from "1.IH" [OF True e c _ _ _ _ a l] ne show ?thesis by simp
    qed
  qed
qed

lemma clipPolygon_steps:
  assumes s: "poly_at h s bs" and c: "poly_at h p cs"
  shows
    "(\<forall>err. clip_steps 0 (cutter_edges (pts h cs)) (ring_order (pts h bs)) = Inl err \<longrightarrow>
       clipPolygon h s p = Some (Inl err)) \<and>
     (\<forall>k. clip_steps 0 (cutter_edges (pts h cs)) (ring_order (pts h bs)) = Inr (Inl k) \<longrightarrow>
       (\<exists>h'. clipPolygon h s p = Some (Inr (False, None, p\<lparr>p_v := Some (cs ! k)\<rparr>, h')) \<and>
             ext h h')) \<and>
     (\<forall>rs. clip_steps 0 (cutter_edges (pts h cs)) (ring_order (pts h bs)) = Inr (Inr rs) \<longrightarrow>
       (\<exists>h' r as'. clipPolygon h s p = Some (Inr (True, Some r, p, h')) \<and> ext h h' \<and>
             poly_at h' r as' \<and> pts h' as' = rs))"
proof -
  from Polygon_copy_poly [OF s] obtain h1 q qs where
    cp: "Polygon_copy h s = Some (Inr (h1, q))" and f: "fresh_poly h h1 q qs"
    and pq: "pts h1 qs = ring_order (pts h bs)"
    by blast
  have e1: "ext h h1" using f by (rule fresh_ext)
  have q: "poly_at h1 q qs" using f by (rule fresh_poly_at)
  have cl: "clipPolygon h s p = Some (clipPolygon_loop 0 h1 p q)"
    using cp by (simp add: clipPolygon_def)
  show ?thesis
  proof (cases "cs = []")
    case True
    with c have "p_size p = 0" by (simp add: poly_at_def)
    then have "clipPolygon_loop 0 h1 p q = Inr (True, Some q, p, h1)"
      by (subst clipPolygon_loop.simps) simp
    with cl True e1 q pq show ?thesis by (auto simp: cutter_edges_def subject_edges_def)
  next
    case False
    with c have r: "ring h cs" and v: "p_v p = Some (hd cs)" and sz: "p_size p = length cs"
      by (simp_all add: poly_at_def)
    have p0: "p\<lparr>p_v := Some (cs ! (0 mod length cs))\<rparr> = p" "p\<lparr>p_v := Some (hd cs)\<rparr> = p"
      using v False by (simp_all add: hd_conv_nth)
    from clipPolygon_loop_steps [OF r sz, of 0 h1 q qs, OF _ e1 q]
    show ?thesis unfolding p0 pq cl drop_0 using e1 ext_trans by (simp; blast)
  qed
qed

lemma Polygon_copy_ok:
  assumes "Polygon_ok h other"
  shows "\<exists>h' P'. Polygon_copy h other = Some (Inr (h', P')) \<and> ext h h' \<and>
           Polygon_ok h' P' \<and> Polygon_ok h' other \<and> p_size P' = p_size other \<and>
           Polygon_points h' P' = ring_order (Polygon_points h other) \<and>
           Polygon_points h' other = Polygon_points h other \<and>
           (\<forall>a\<in>set (Polygon_ring h' P'). length h \<le> a)"
proof -
  let ?bs = "Polygon_ring h other"
  have o: "poly_at h other ?bs" using assms by (rule ok_poly_at)
  from Polygon_copy_poly [OF o] obtain h' P' as' where
    cp: "Polygon_copy h other = Some (Inr (h', P'))" and f: "fresh_poly h h' P' as'"
    and p: "pts h' as' = ring_order (pts h ?bs)"
    by blast
  have e: "ext h h'" using f by (rule fresh_ext)
  from poly_at_ok [OF fresh_poly_at [OF f]]
  have ok': "Polygon_ok h' P'" and r': "Polygon_ring h' P' = as'" by simp_all
  from poly_at_ext [OF o e] have o': "poly_at h' other ?bs" and po: "pts h' ?bs = pts h ?bs" .
  from poly_at_ok [OF o'] have oko: "Polygon_ok h' other" and ro: "Polygon_ring h' other = ?bs"
    by simp_all
  have "length as' = length ?bs" using arg_cong [OF p, of length] by simp
  then have sz: "p_size P' = p_size other"
    using poly_at_size [OF fresh_poly_at [OF f]] poly_at_size [OF o] by simp
  have fr: "\<forall>a\<in>set (Polygon_ring h' P'). length h \<le> a"
    using f r' by (simp add: fresh_poly_def)
  show ?thesis
    using cp e ok' oko sz fr p po r' ro by (simp add: Polygon_points_def)
qed

lemma Polygon_ok_ext:
  assumes "Polygon_ok h P" and "ext h h'"
  shows "Polygon_ok h' P" and "Polygon_ring h' P = Polygon_ring h P"
    and "Polygon_points h' P = Polygon_points h P"
proof -
  from poly_at_ext [OF ok_poly_at [OF assms(1)] assms(2)]
  have a: "poly_at h' P (Polygon_ring h P)"
    and b: "pts h' (Polygon_ring h P) = pts h (Polygon_ring h P)" .
  from poly_at_ok [OF a] show "Polygon_ok h' P" and r: "Polygon_ring h' P = Polygon_ring h P"
    by simp_all
  show "Polygon_points h' P = Polygon_points h P" using b r by (simp add: Polygon_points_def)
qed

lemma Polygon_ok_new: "Polygon_ok h Polygon_new"
  by (simp add: Polygon_ok_def Polygon_new_def)

lemma Polygon_insert_ok:
  assumes "Polygon_ok h P"
  shows "\<exists>h' P'. Polygon_insert h P x = Inr (h', P') \<and> Polygon_ok h' P' \<and>
           p_size P' = Suc (p_size P) \<and>
           Polygon_points h' P' = ins_after (Polygon_points h P) x"
proof -
  from Polygon_insert_poly [OF ok_poly_at [OF assms], of x] obtain h' P' where
    i: "Polygon_insert h P x = Inr (h', P')"
       "poly_at h' P' (ins_after (Polygon_ring h P) (length h))"
       "pts h' (ins_after (Polygon_ring h P) (length h)) = ins_after (pts h (Polygon_ring h P)) x"
    by blast
  from poly_at_ok [OF i(2)] poly_at_size [OF i(2)] poly_at_size [OF ok_poly_at [OF assms]] i(1,3)
  show ?thesis by (cases "Polygon_ring h P") (auto simp: Polygon_points_def)
qed

lemma Polygon_advance_ok:
  assumes ok: "Polygon_ok h P" and pos: "0 < p_size P"
  shows "\<exists>P'. Polygon_advance h P rot = Inr P' \<and> Polygon_ok h P' \<and> p_size P' = p_size P"
proof -
  let ?as = "Polygon_ring h P"
  have pa: "poly_at h P ?as" using ok by (rule ok_poly_at)
  have ne: "?as \<noteq> []" using poly_at_size [OF pa] pos by auto
  show ?thesis
  proof (cases rot)
    case CLOCKWISE
    from Polygon_advance_cw [OF pa ne] CLOCKWISE poly_at_ok show ?thesis by fastforce
  next
    case COUNTER_CLOCKWISE
    from Polygon_advance_ccw [OF pa ne] COUNTER_CLOCKWISE poly_at_ok show ?thesis by fastforce
  qed
qed

lemma clipPolygonToEdge_ok:
  assumes ok: "Polygon_ok h s"
  shows "clipPolygonToEdge h s e = Inl UninitialisedRead \<or>
         (\<exists>flag r h'. clipPolygonToEdge h s e = Inr (flag, r, s, h') \<and> ext h h' \<and>
            Polygon_ok h' r \<and> flag = (0 < p_size r) \<and>
            (\<forall>a\<in>set (Polygon_ring h' r). length h \<le> a))"
proof -
  let ?bs = "Polygon_ring h s"
  have s: "poly_at h s ?bs" using ok by (rule ok_poly_at)
  note c = clipPolygonToEdge_poly [OF s, of e]
  show ?thesis
  proof (cases "emit_all e (subject_edges (pts h ?bs))")
    case (Inl err)
    with c emit_all_error [OF Inl] show ?thesis by simp
  next
    case (Inr ps)
    with c obtain h' r as' where run: "clipPolygonToEdge h s e = Inr (ps \<noteq> [], r, s, h')"
      and f: "fresh_poly h h' r as'" and p: "pts h' as' = ring_order ps"
      by auto
    from poly_at_ok [OF fresh_poly_at [OF f]]
    have okr: "Polygon_ok h' r" and rr: "Polygon_ring h' r = as'" by simp_all
    have "length as' = length ps" using arg_cong [OF p, of length] by simp
    then have fl: "(ps \<noteq> []) = (0 < p_size r)"
      using poly_at_size [OF fresh_poly_at [OF f]] by simp
    have fr: "\<forall>a\<in>set (Polygon_ring h' r). length h \<le> a"
      using f rr by (simp add: fresh_poly_def)
    from run fresh_ext [OF f] okr fl fr show ?thesis by auto
  qed
qed

lemma poly_at_cursor:
  assumes pa: "poly_at h P cs" and k: "k < length cs"
  shows "poly_at h (P\<lparr>p_v := Some (cs ! k)\<rparr>) (rotate k cs)"
proof -
  have ne: "cs \<noteq> []" using k by auto
  with pa have r: "ring h cs" and sz: "p_size P = length cs" by (simp_all add: poly_at_def)
  have "hd (rotate k cs) = cs ! k" using ne k by (simp add: hd_rotate_conv_nth)
  with ring_rotate [OF r, of k] sz ne show ?thesis by (simp add: poly_at_def)
qed

lemma clipPolygon_ok:
  assumes oks: "Polygon_ok h s" and okp: "Polygon_ok h p"
  shows "clipPolygon h s p = Some (Inl UninitialisedRead) \<or>
         (\<exists>k h'. k < p_size p \<and>
            clipPolygon h s p
              = Some (Inr (False, None, p\<lparr>p_v := Some (Polygon_ring h p ! k)\<rparr>, h')) \<and>
            ext h h' \<and> Polygon_ok h' (p\<lparr>p_v := Some (Polygon_ring h p ! k)\<rparr>)) \<or>
         (\<exists>r h'. clipPolygon h s p = Some (Inr (True, Some r, p, h')) \<and> ext h h' \<and>
            Polygon_ok h' r \<and> (0 < p_size s \<or> 0 < p_size p \<longrightarrow> 0 < p_size r))"
proof -
  let ?bs = "Polygon_ring h s" and ?cs = "Polygon_ring h p"
  have s: "poly_at h s ?bs" using oks by (rule ok_poly_at)
  have c: "poly_at h p ?cs" using okp by (rule ok_poly_at)
  note st = clipPolygon_steps [OF s c]
  let ?steps = "clip_steps 0 (cutter_edges (pts h ?cs)) (ring_order (pts h ?bs))"
  show ?thesis
  proof (cases ?steps)
    case (Inl err)
    with st clip_steps_error [OF Inl] show ?thesis by simp
  next
    case (Inr res)
    show ?thesis
    proof (cases res)
      case (Inl k)
      with Inr have e: "?steps = Inr (Inl k)" by simp
      from clip_steps_index [OF e] have k: "k < length ?cs" by simp
      from st e obtain h' where
        cl: "clipPolygon h s p = Some (Inr (False, None, p\<lparr>p_v := Some (?cs ! k)\<rparr>, h'))"
        and ex: "ext h h'" by blast
      from poly_at_ext(1) [OF poly_at_cursor [OF c k] ex] poly_at_ok
      have "Polygon_ok h' (p\<lparr>p_v := Some (?cs ! k)\<rparr>)" by blast
      with cl ex k poly_at_size [OF c] show ?thesis by auto
    next
      case (Inr rs)
      with \<open>?steps = Inr res\<close> have e: "?steps = Inr (Inr rs)" by simp
      from st e obtain h' r as' where
        cl: "clipPolygon h s p = Some (Inr (True, Some r, p, h'))" and ex: "ext h h'"
        and r: "poly_at h' r as'" and pr: "pts h' as' = rs" by blast
      have sz: "p_size r = length rs"
        using poly_at_size [OF r] arg_cong [OF pr, of length] by simp
      have "0 < p_size r" if "0 < p_size s \<or> 0 < p_size p"
      proof -
        from that poly_at_size [OF s] poly_at_size [OF c]
        have "cutter_edges (pts h ?cs) \<noteq> [] \<or> ring_order (pts h ?bs) \<noteq> []"
          by (auto simp: cutter_edges_def subject_edges_def pts_def)
        from clip_steps_nonempty [OF e this] sz show ?thesis by simp
      qed
      with cl ex poly_at_ok [OF r] show ?thesis by auto
    qed
  qed
qed

section \<open>Evaluation on concrete stores\<close>

lemmas eval_store = Polygon_insert_def Vertex_insert_def Let_def Polygon_new_def Vertex_new_def
  Vertex_point_def Point.defs Vertex.defs load_def Vertex_cw_def Vertex_ccw_def Vertex_neighbor_def
  Polygon_getPoint_def Polygon_cw_def Polygon_advance_def Polygon_edge_def nth_append

lemmas eval_ring = Polygon_ok_def Polygon_ring_def Polygon_points_def pts_def ring_def nxt_def
  prv_def Vertex_point_def Point.defs

lemmas eval_classify = Point_classify_def Point_minus_def Point_length_def Point_eq_def
  Edge_intersect_def Edge_point_def

lemmas eval_clip = clipPolygon_def Polygon_copy_def clipPolygonToEdge_def
  Polygon_copy_loop.simps clipPolygon_loop.simps clipPolygonToEdge_loop.simps clip_body_def

lemma store3_ok: "Polygon_ok store3 one_gon" "Polygon_ok store3 two_gon"
  by (simp_all add: eval_ring numeral_2_eq_2)

lemma store3_clip_two_gon:
  "clipPolygonToEdge store3 two_gon \<lparr>org = pt 0 0, dest = pt 0 5\<rparr>
     = Inr (True, \<lparr>p_v = Some 3, p_size = 2\<rparr>, two_gon, store3 @ [vtx 1 3 4 4, vtx 1 1 3 3])"
  by (simp add: eval_clip eval_store eval_classify)

lemma store3_clip_one_gon:
  "clipPolygonToEdge store3 one_gon \<lparr>org = pt 1 1, dest = pt 1 3\<rparr>
     = Inr (False, \<lparr>p_v = None, p_size = 0\<rparr>, one_gon, store3)"
  by (simp add: eval_clip eval_store eval_classify)

lemma store3_clipPolygon:
  "clipPolygon store3 one_gon two_gon
     = Some (Inr (False, None, two_gon, store3 @ [vtx 0 2 3 3]))"
  by (simp add: eval_clip eval_store eval_classify)

lemma store3_edge: "Polygon_edge store3 two_gon = Inr \<lparr>org = pt 1 1, dest = pt 1 3\<rparr>"
  by (simp add: eval_store)

lemma scenario_steps:
  "clip_steps 0 (cutter_edges (ring_order [pt 1 1, pt 3 1, pt 3 3, pt 1 3]))
      (ring_order (ring_order [pt 0 0, pt 2 0, pt 2 2, pt 0 2]))
   = Inr (Inr [pt 1 1, pt 2 1, pt 2 2, pt 1 2])"
  by (simp add: cutter_edges_def subject_edges_def ring_order_def emit_def Let_def eval_classify)

lemma store_right_ok: "Polygon_ok store_right one_gon" "Polygon_ok store_right two_gon"
  by (simp_all add: eval_ring numeral_2_eq_2)

lemma store_right_clipPolygon:
  "clipPolygon store_right one_gon two_gon
     = Some (Inr (False, None, \<lparr>p_v = Some 2, p_size = 2\<rparr>,
                  store_right @ [vtx 2 2 3 3, vtx 2 2 4 4]))"
  by (simp add: eval_clip eval_store eval_classify)

lemma store_right_steps:
  "clip_steps 0 (cutter_edges (Polygon_points store_right two_gon))
      (ring_order (Polygon_points store_right one_gon)) = Inr (Inl 1)"
  by (simp add: eval_ring numeral_2_eq_2 cutter_edges_def subject_edges_def ring_order_def
        emit_def Let_def eval_classify)

lemma store3_steps_back:
  "clip_steps 0 (cutter_edges (Polygon_points store3 one_gon))
      (ring_order (Polygon_points store3 two_gon)) = Inr (Inr [pt 1 3, pt 1 1])"
  by (simp add: eval_ring numeral_2_eq_2 cutter_edges_def subject_edges_def ring_order_def
        emit_def Let_def eval_classify)

lemma store3_clipPolygon_back:
  "clipPolygon store3 two_gon one_gon
     = Some (Inr (True, Some \<lparr>p_v = Some 5, p_size = 2\<rparr>, one_gon,
                  store3 @ [vtx 1 1 4 4, vtx 1 3 3 3, vtx 1 3 6 6, vtx 1 1 5 5]))"
  by (simp add: eval_clip eval_store eval_classify)

lemma store3_result_points:
  "Polygon_points (store3 @ [vtx 1 1 4 4, vtx 1 3 3 3, vtx 1 3 6 6, vtx 1 1 5 5])
      \<lparr>p_v = Some 5, p_size = 2\<rparr> = [pt 1 3, pt 1 1]"
  by (simp add: eval_ring numeral_2_eq_2)

lemma store3_emit_one_gon:
  "emit_all \<lparr>org = pt 1 1, dest = pt 1 3\<rparr> (subject_edges (Polygon_points store3 one_gon))
     = Inr []"
  by (simp add: eval_ring subject_edges_def emit_def Let_def eval_classify)





lemma unassigned_t_example:
  "Point_classify (pt 0 (1 / 2 ^ 30)) \<lparr>org = pt 0 0, dest = pt (1 / 2 ^ 30) 0\<rparr> = LEFT \<and>
   Point_classify (pt 0 (- 1 / 2 ^ 30)) \<lparr>org = pt 0 0, dest = pt (1 / 2 ^ 30) 0\<rparr> = RIGHT \<and>
   Edge_intersect \<lparr>org = pt 0 0, dest = pt (1 / 2 ^ 30) 0\<rparr>
                  \<lparr>org = pt 0 (1 / 2 ^ 30), dest = pt 0 (- 1 / 2 ^ 30)\<rparr> = (False, None) \<and>
   emit \<lparr>org = pt 0 0, dest = pt (1 / 2 ^ 30) 0\<rparr> (pt 0 (1 / 2 ^ 30)) (pt 0 (- 1 / 2 ^ 30))
     = Inl UninitialisedRead"
  by (simp add: emit_def eval_classify)

section \<open>The claims\<close>

text \<open>
  Claim C1, as stated, fails.  The claim takes an endpoint for inside exactly when its
  class is LEFT, and boundary classes for outside.  Against the clip edge from (1,1) to
  (1,3), the one-vertex subject at (1,2) has class BETWEEN and is kept (the result is the
  ring of the single point (1,2)), where the table of the single-edge clip with LEFT
  for inside gives nothing; the one-vertex subject at (0,2) has class LEFT and is
  dropped (the result is empty and the flag false), where that table gives (0,2).
\<close>

theorem clip_keeps_boundary_drops_left:
  "Point_classify (pt 1 2) \<lparr>org = pt 1 1, dest = pt 1 3\<rparr> = BETWEEN \<and>
   clipPolygonToEdge [vtx 1 2 0 0] \<lparr>p_v = Some 0, p_size = 1\<rparr> \<lparr>org = pt 1 1, dest = pt 1 3\<rparr>
     = Inr (True, \<lparr>p_v = Some 1, p_size = 1\<rparr>, \<lparr>p_v = Some 0, p_size = 1\<rparr>,
            [vtx 1 2 0 0, vtx 1 2 1 1]) \<and>
   spec_clip (\<lambda>p. Point_classify p \<lparr>org = pt 1 1, dest = pt 1 3\<rparr> = LEFT)
      \<lparr>org = pt 1 1, dest = pt 1 3\<rparr> [pt 1 2] = [] \<and>
   Point_classify (pt 0 2) \<lparr>org = pt 1 1, dest = pt 1 3\<rparr> = LEFT \<and>
   clipPolygonToEdge [vtx 0 2 0 0] \<lparr>p_v = Some 0, p_size = 1\<rparr> \<lparr>org = pt 1 1, dest = pt 1 3\<rparr>
     = Inr (False, \<lparr>p_v = None, p_size = 0\<rparr>, \<lparr>p_v = Some 0, p_size = 1\<rparr>, [vtx 0 2 0 0]) \<and>
   spec_clip (\<lambda>p. Point_classify p \<lparr>org = pt 1 1, dest = pt 1 3\<rparr> = LEFT)
      \<lparr>org = pt 1 1, dest = pt 1 3\<rparr> [pt 0 2] = [pt 0 2]"
proof -
  have c1: "Point_classify (pt 1 2) \<lparr>org = pt 1 1, dest = pt 1 3\<rparr> = BETWEEN"
    by (simp add: eval_classify)
  have c2: "Point_classify (pt 0 2) \<lparr>org = pt 1 1, dest = pt 1 3\<rparr> = LEFT"
    by (simp add: eval_classify)
  have r1: "clipPolygonToEdge [vtx 1 2 0 0] \<lparr>p_v = Some 0, p_size = 1\<rparr> \<lparr>org = pt 1 1, dest = pt 1 3\<rparr>
     = Inr (True, \<lparr>p_v = Some 1, p_size = 1\<rparr>, \<lparr>p_v = Some 0, p_size = 1\<rparr>,
            [vtx 1 2 0 0, vtx 1 2 1 1])"
    unfolding clipPolygonToEdge_def
    by (simp add: clipPolygonToEdge_loop.simps clip_body_def c1 eval_store)
  have r2: "clipPolygonToEdge [vtx 0 2 0 0] \<lparr>p_v = Some 0, p_size = 1\<rparr> \<lparr>org = pt 1 1, dest = pt 1 3\<rparr>
     = Inr (False, \<lparr>p_v = None, p_size = 0\<rparr>, \<lparr>p_v = Some 0, p_size = 1\<rparr>, [vtx 0 2 0 0])"
    unfolding clipPolygonToEdge_def
    by (simp add: clipPolygonToEdge_loop.simps clip_body_def c2 eval_store)
  have s1: "spec_clip (\<lambda>p. Point_classify p \<lparr>org = pt 1 1, dest = pt 1 3\<rparr> = LEFT)
      \<lparr>org = pt 1 1, dest = pt 1 3\<rparr> [pt 1 2] = []"
    by (simp add: spec_clip_def spec_clip_edge_def subject_edges_def ring_order_def c1)
  have s2: "spec_clip (\<lambda>p. Point_classify p \<lparr>org = pt 1 1, dest = pt 1 3\<rparr> = LEFT)
      \<lparr>org = pt 1 1, dest = pt 1 3\<rparr> [pt 0 2] = [pt 0 2]"
    by (simp add: spec_clip_def spec_clip_edge_def subject_edges_def ring_order_def c2)
  from c1 c2 r1 r2 s1 s2 show ?thesis by simp
qed

text \<open>
  Claim C1, amended.  In \<open>clipPolygonToEdge\<close> an endpoint of a subject edge is inside
  exactly when its class against the clip edge is not LEFT, so RIGHT and the five
  classes on the line of the edge (BEHIND, BEYOND, ORIGIN, DESTINATION, BETWEEN) are
  inside: whenever the call returns, the ring of the result is the one the four-case
  table of the single-edge clip produces with this inside test, and the flag tells
  whether that ring has a vertex.
\<close>

theorem clipPolygonToEdge_inside_is_not_LEFT:
  assumes ok: "Polygon_ok h s"
    and run: "clipPolygonToEdge h s e = Inr (flag, r, s', h')"
  shows "Polygon_points h' r
           = spec_clip (\<lambda>p. Point_classify p e \<noteq> LEFT) e (Polygon_points h s) \<and>
         flag = (Polygon_points h' r \<noteq> [])"
proof -
  let ?bs = "Polygon_ring h s"
  have s: "poly_at h s ?bs" using ok by (rule ok_poly_at)
  note c = clipPolygonToEdge_poly [OF s, of e]
  show ?thesis
  proof (cases "emit_all e (subject_edges (pts h ?bs))")
    case (Inl err)
    with c run show ?thesis by simp
  next
    case (Inr ps)
    with c run obtain as' where fl: "flag = (ps \<noteq> [])" and f: "fresh_poly h h' r as'"
      and p: "pts h' as' = ring_order ps"
      by auto
    from poly_at_ok [OF fresh_poly_at [OF f]] have "Polygon_ring h' r = as'" by simp
    then have pp: "Polygon_points h' r = ring_order ps" using p by (simp add: Polygon_points_def)
    from emit_all_spec [OF Inr] pp fl show ?thesis
      by (simp add: spec_clip_def Polygon_points_def)
  qed
qed

theorem clipPolygonToEdge_inside_is_not_LEFT_witness:
  "Polygon_ok [vtx 1 2 0 0] \<lparr>p_v = Some 0, p_size = 1\<rparr> \<and>
   clipPolygonToEdge [vtx 1 2 0 0] \<lparr>p_v = Some 0, p_size = 1\<rparr> \<lparr>org = pt 1 1, dest = pt 1 3\<rparr>
     = Inr (True, \<lparr>p_v = Some 1, p_size = 1\<rparr>, \<lparr>p_v = Some 0, p_size = 1\<rparr>,
            [vtx 1 2 0 0, vtx 1 2 1 1]) \<and>
   Polygon_points [vtx 1 2 0 0, vtx 1 2 1 1] \<lparr>p_v = Some 1, p_size = 1\<rparr>
     = spec_clip (\<lambda>p. Point_classify p \<lparr>org = pt 1 1, dest = pt 1 3\<rparr> \<noteq> LEFT)
         \<lparr>org = pt 1 1, dest = pt 1 3\<rparr> (Polygon_points [vtx 1 2 0 0] \<lparr>p_v = Some 0, p_size = 1\<rparr>) \<and>
   Polygon_points [vtx 1 2 0 0, vtx 1 2 1 1] \<lparr>p_v = Some 1, p_size = 1\<rparr> = [pt 1 2]"
proof -
  have c1: "Point_classify (pt 1 2) \<lparr>org = pt 1 1, dest = pt 1 3\<rparr> = BETWEEN"
    by (simp add: eval_classify)
  have ok: "Polygon_ok [vtx 1 2 0 0] \<lparr>p_v = Some 0, p_size = 1\<rparr>"
    by (simp add: eval_ring)
  have r1: "clipPolygonToEdge [vtx 1 2 0 0] \<lparr>p_v = Some 0, p_size = 1\<rparr> \<lparr>org = pt 1 1, dest = pt 1 3\<rparr>
     = Inr (True, \<lparr>p_v = Some 1, p_size = 1\<rparr>, \<lparr>p_v = Some 0, p_size = 1\<rparr>,
            [vtx 1 2 0 0, vtx 1 2 1 1])"
    unfolding clipPolygonToEdge_def
    by (simp add: clipPolygonToEdge_loop.simps clip_body_def c1 eval_store)
  have pp: "Polygon_points [vtx 1 2 0 0, vtx 1 2 1 1] \<lparr>p_v = Some 1, p_size = 1\<rparr> = [pt 1 2]"
    by (simp add: eval_ring)
  from clipPolygonToEdge_inside_is_not_LEFT [OF ok r1] ok r1 pp show ?thesis by simp
qed

text \<open>
  Claim C2.  The polygon built by inserting (0,0), (2,0), (2,2) has the clockwise ring
  (0,0), (2,2), (2,0) from its cursor.  Its copy has three vertices in three new cells,
  but the clockwise ring (0,0), (2,0), (2,2): the first point, then the others in
  reverse.  The claim asks for the same sequence.  (\<open>Polygon_copy_ok\<close> above gives the
  order of the copy in general.)
\<close>

theorem Polygon_copy_reverses_triangle:
  "buildPolygon [] Polygon_new [pt 0 0, pt 2 0, pt 2 2]
     = Inr ([vtx 0 0 2 1, vtx 2 0 0 2, vtx 2 2 1 0], \<lparr>p_v = Some 0, p_size = 3\<rparr>) \<and>
   Polygon_points [vtx 0 0 2 1, vtx 2 0 0 2, vtx 2 2 1 0] \<lparr>p_v = Some 0, p_size = 3\<rparr>
     = [pt 0 0, pt 2 2, pt 2 0] \<and>
   Polygon_copy [vtx 0 0 2 1, vtx 2 0 0 2, vtx 2 2 1 0] \<lparr>p_v = Some 0, p_size = 3\<rparr>
     = Some (Inr ([vtx 0 0 2 1, vtx 2 0 0 2, vtx 2 2 1 0, vtx 0 0 5 4, vtx 2 2 3 5, vtx 2 0 4 3],
                  \<lparr>p_v = Some 3, p_size = 3\<rparr>)) \<and>
   Polygon_points [vtx 0 0 2 1, vtx 2 0 0 2, vtx 2 2 1 0, vtx 0 0 5 4, vtx 2 2 3 5, vtx 2 0 4 3]
      \<lparr>p_v = Some 3, p_size = 3\<rparr>
     = [pt 0 0, pt 2 0, pt 2 2]"
proof -
  have b: "buildPolygon [] Polygon_new [pt 0 0, pt 2 0, pt 2 2]
     = Inr ([vtx 0 0 2 1, vtx 2 0 0 2, vtx 2 2 1 0], \<lparr>p_v = Some 0, p_size = 3\<rparr>)"
    by (simp add: eval_store numeral_2_eq_2 numeral_3_eq_3)
  have p1: "Polygon_points [vtx 0 0 2 1, vtx 2 0 0 2, vtx 2 2 1 0] \<lparr>p_v = Some 0, p_size = 3\<rparr>
     = [pt 0 0, pt 2 2, pt 2 0]"
    by (simp add: eval_ring numeral_3_eq_3)
  have c: "Polygon_copy [vtx 0 0 2 1, vtx 2 0 0 2, vtx 2 2 1 0] \<lparr>p_v = Some 0, p_size = 3\<rparr>
     = Some (Inr ([vtx 0 0 2 1, vtx 2 0 0 2, vtx 2 2 1 0, vtx 0 0 5 4, vtx 2 2 3 5, vtx 2 0 4 3],
                  \<lparr>p_v = Some 3, p_size = 3\<rparr>))"
    unfolding Polygon_copy_def
    by (simp add: Polygon_copy_loop.simps eval_store eval_nat_numeral)
  have p2: "Polygon_points [vtx 0 0 2 1, vtx 2 0 0 2, vtx 2 2 1 0, vtx 0 0 5 4, vtx 2 2 3 5, vtx 2 0 4 3]
      \<lparr>p_v = Some 3, p_size = 3\<rparr>
     = [pt 0 0, pt 2 0, pt 2 2]"
    by (simp add: eval_ring numeral_3_eq_3)
  from b p1 c p2 show ?thesis by simp
qed

text \<open>
  Claim C3.  With the subject built by inserting (0,0), (2,0), (2,2), (0,2) and the cutter
  built by inserting (1,1), (3,1), (3,3), (1,3), \<open>clipPolygon\<close> returns true and a
  polygon of 4 vertices whose clockwise ring from the cursor is (1,1), (2,1), (2,2), (1,2):
  the sequence (2,2), (1,2), (1,1), (2,1) rotated by two places.
\<close>

theorem clipPolygon_two_squares:
  "\<exists>h1 s h2 p r p' h'.
     buildPolygon [] Polygon_new [pt 0 0, pt 2 0, pt 2 2, pt 0 2] = Inr (h1, s) \<and>
     buildPolygon h1 Polygon_new [pt 1 1, pt 3 1, pt 3 3, pt 1 3] = Inr (h2, p) \<and>
     clipPolygon h2 s p = Some (Inr (True, Some r, p', h')) \<and>
     p_size r = 4 \<and>
     Polygon_points h' r = rotate 2 [pt 2 2, pt 1 2, pt 1 1, pt 2 1]"
proof -
  let ?subj = "[pt 0 0, pt 2 0, pt 2 2, pt 0 2]" and ?cut = "[pt 1 1, pt 3 1, pt 3 3, pt 1 3]"
  from buildPolygon_fresh [OF fresh_poly_new, of "[]" ?subj] obtain h1 s bs where
    b1: "buildPolygon [] Polygon_new ?subj = Inr (h1, s)" and f1: "fresh_poly [] h1 s bs"
    and p1: "pts h1 bs = foldl ins_after (pts [] []) ?subj"
    by blast
  from buildPolygon_fresh [OF fresh_poly_new, of h1 ?cut] obtain h2 p cs where
    b2: "buildPolygon h1 Polygon_new ?cut = Inr (h2, p)" and f2: "fresh_poly h1 h2 p cs"
    and p2: "pts h2 cs = foldl ins_after (pts h1 []) ?cut"
    by blast
  have q1: "pts h1 bs = ring_order ?subj"
    using p1 foldl_ins_after [of "[]" ?subj] by simp
  have q2: "pts h2 cs = ring_order ?cut"
    using p2 foldl_ins_after [of "[]" ?cut] by simp
  from poly_at_ext [OF fresh_poly_at [OF f1] fresh_ext [OF f2]]
  have s2: "poly_at h2 s bs" and q1': "pts h2 bs = pts h1 bs" .
  have c2: "poly_at h2 p cs" using f2 by (rule fresh_poly_at)
  have st: "clip_steps 0 (cutter_edges (pts h2 cs)) (ring_order (pts h2 bs))
            = Inr (Inr [pt 1 1, pt 2 1, pt 2 2, pt 1 2])"
    unfolding q2 q1' q1 by (rule scenario_steps)
  from clipPolygon_steps [OF s2 c2] st obtain h' r as' where
    cl: "clipPolygon h2 s p = Some (Inr (True, Some r, p, h'))"
    and r: "poly_at h' r as'" and pr: "pts h' as' = [pt 1 1, pt 2 1, pt 2 2, pt 1 2]"
    by blast
  have "length as' = 4" using arg_cong [OF pr, of length] by simp
  then have sz: "p_size r = 4" using poly_at_size [OF r] by simp
  from poly_at_ok [OF r] pr have pp: "Polygon_points h' r = [pt 1 1, pt 2 1, pt 2 2, pt 1 2]"
    by (simp add: Polygon_points_def)
  have "rotate 2 [pt 2 2, pt 1 2, pt 1 1, pt 2 1] = [pt 1 1, pt 2 1, pt 2 2, pt 1 2]"
    by (simp add: numeral_2_eq_2)
  with b1 b2 cl sz pp show ?thesis by auto
qed

text \<open>
  Claim C4.  The segments from (0,-1) to (0,1) and from (-1,0) to (1,0) cross at the
  origin, at parameter 1/2 of each, and the determinant is 4.  The claim (and the comment
  of \<open>Edge::intersect\<close>: true when an intersection exists) asks for a reported
  intersection; the function returns false, having assigned t = 1/2.  The value it
  computes for \<open>u\<close> is the negated parameter along the second edge
  (\<open>Edge_intersect_flag_iff\<close> above: the flag asks that parameter to lie in [-1,0]).
\<close>

theorem intersect_rejects_crossing_segments:
  "Edge_intersect \<lparr>org = \<lparr>px = 0, py = - 1\<rparr>, dest = \<lparr>px = 0, py = 1\<rparr>\<rparr>
                  \<lparr>org = \<lparr>px = - 1, py = 0\<rparr>, dest = \<lparr>px = 1, py = 0\<rparr>\<rparr> = (False, Some (1 / 2)) \<and>
   Edge_point \<lparr>org = \<lparr>px = 0, py = - 1\<rparr>, dest = \<lparr>px = 0, py = 1\<rparr>\<rparr> (1 / 2)
     = Edge_point \<lparr>org = \<lparr>px = - 1, py = 0\<rparr>, dest = \<lparr>px = 1, py = 0\<rparr>\<rparr> (1 / 2) \<and>
   Edge_det \<lparr>org = \<lparr>px = 0, py = - 1\<rparr>, dest = \<lparr>px = 0, py = 1\<rparr>\<rparr>
            \<lparr>org = \<lparr>px = - 1, py = 0\<rparr>, dest = \<lparr>px = 1, py = 0\<rparr>\<rparr> = 4"
  by (simp add: Edge_intersect_def Edge_point_def Edge_det_def)

text \<open>
  Claim C5.  \<open>clipPolygon\<close> copies the subject and runs its loop on the copy, from the
  cutter's cursor.  In any round of the loop, when the single-edge clip against the
  cutter's current edge returns false (an empty polygon), the loop returns false at once,
  with no result polygon, the cutter's cursor still on that edge and the store as that
  clip left it: no later edge is clipped against.  The single-edge clip of a polygon
  against an edge \<open>e\<close> returns the ring \<open>ring_order ps\<close> of the points \<open>ps\<close> that \<open>emit_all\<close>
  collects over the edges of the polygon, and false exactly when \<open>ps\<close> is empty;
  \<open>clip_steps\<close> folds this step over the cutter's edges in order from the cursor,
  starting from the ring of the copy, and stops at the first edge whose clip is empty.
  For a subject and a cutter that satisfy the invariant, the call computes this fold.
  When the fold stops at the edge of index \<open>k\<close>, the call returns false with no result
  polygon and the cutter's cursor on the vertex of index \<open>k\<close>: it advanced past the \<open>k\<close>
  edges before, and past none after.  When the fold runs through all the edges, the call
  returns true and a polygon that satisfies the invariant and whose ring is the final
  ring of the fold, with at least one vertex as soon as the subject or the cutter has
  one, and the cutter's cursor is back where it started.  When a round of the fold reads
  the unassigned \<open>t\<close>, so does the call.
\<close>

theorem clipPolygon_failure_and_success:
  assumes oks: "Polygon_ok h s" and okp: "Polygon_ok h p"
  shows
   "(\<exists>h1 q. Polygon_copy h s = Some (Inr (h1, q)) \<and>
        Polygon_points h1 q = ring_order (Polygon_points h s) \<and>
        clipPolygon h s p = Some (clipPolygon_loop 0 h1 p q)) \<and>
    (\<forall>i hq pq q e r q' h1.
        i < p_size pq \<and> Polygon_edge hq pq = Inr e \<and>
        clipPolygonToEdge hq q e = Inr (False, r, q', h1) \<longrightarrow>
        clipPolygon_loop i hq pq q = Inr (False, None, pq, h1)) \<and>
    (\<forall>hq q e. Polygon_ok hq q \<longrightarrow>
        (case emit_all e (subject_edges (Polygon_points hq q)) of
           Inl err \<Rightarrow> clipPolygonToEdge hq q e = Inl UninitialisedRead
         | Inr ps \<Rightarrow> (\<exists>r h'. clipPolygonToEdge hq q e = Inr (ps \<noteq> [], r, q, h') \<and>
                         Polygon_ok h' r \<and> Polygon_points h' r = ring_order ps))) \<and>
    (case clip_steps 0 (cutter_edges (Polygon_points h p)) (ring_order (Polygon_points h s)) of
       Inl err \<Rightarrow> clipPolygon h s p = Some (Inl UninitialisedRead)
     | Inr (Inl k) \<Rightarrow>
         k < p_size p \<and>
         (\<exists>h'. clipPolygon h s p
                 = Some (Inr (False, None, p\<lparr>p_v := Some (Polygon_ring h p ! k)\<rparr>, h')) \<and>
               ext h h')
     | Inr (Inr rs) \<Rightarrow>
         (\<exists>r h'. clipPolygon h s p = Some (Inr (True, Some r, p, h')) \<and> ext h h' \<and>
                 Polygon_ok h' r \<and> Polygon_points h' r = rs \<and>
                 (0 < p_size s \<or> 0 < p_size p \<longrightarrow> 0 < p_size r)))"
proof -
  let ?bs = "Polygon_ring h s" and ?cs = "Polygon_ring h p"
  have s: "poly_at h s ?bs" using oks by (rule ok_poly_at)
  have c: "poly_at h p ?cs" using okp by (rule ok_poly_at)
  have a: "\<exists>h1 q. Polygon_copy h s = Some (Inr (h1, q)) \<and>
        Polygon_points h1 q = ring_order (Polygon_points h s) \<and>
        clipPolygon h s p = Some (clipPolygon_loop 0 h1 p q)"
  proof -
    from Polygon_copy_ok [OF oks] obtain h1 q where
      cp: "Polygon_copy h s = Some (Inr (h1, q))"
      and pq: "Polygon_points h1 q = ring_order (Polygon_points h s)"
      by blast
    from cp have "clipPolygon h s p = Some (clipPolygon_loop 0 h1 p q)"
      by (simp add: clipPolygon_def)
    with cp pq show ?thesis by blast
  qed
  have b: "clipPolygon_loop i hq pq q = Inr (False, None, pq, h1)"
    if "i < p_size pq" "Polygon_edge hq pq = Inr e"
       "clipPolygonToEdge hq q e = Inr (False, r, q', h1)" for i hq pq q e r q' h1
    by (subst clipPolygon_loop.simps) (use that in simp)
  have t: "case emit_all e (subject_edges (Polygon_points hq q)) of
           Inl err \<Rightarrow> clipPolygonToEdge hq q e = Inl UninitialisedRead
         | Inr ps \<Rightarrow> (\<exists>r h'. clipPolygonToEdge hq q e = Inr (ps \<noteq> [], r, q, h') \<and>
                         Polygon_ok h' r \<and> Polygon_points h' r = ring_order ps)"
    if okq: "Polygon_ok hq q" for hq q e
  proof (cases "emit_all e (subject_edges (Polygon_points hq q))")
    case (Inl err)
    with clipPolygonToEdge_poly [OF ok_poly_at [OF okq], of e] emit_all_error [OF Inl]
    show ?thesis by (simp add: Polygon_points_def)
  next
    case (Inr ps)
    with clipPolygonToEdge_poly [OF ok_poly_at [OF okq], of e] obtain h' r as' where
      run: "clipPolygonToEdge hq q e = Inr (ps \<noteq> [], r, q, h')"
      and f: "fresh_poly hq h' r as'" and p: "pts h' as' = ring_order ps"
      by (auto simp: Polygon_points_def)
    from poly_at_ok [OF fresh_poly_at [OF f]] p
    have "Polygon_ok h' r" "Polygon_points h' r = ring_order ps"
      by (simp_all add: Polygon_points_def)
    with run Inr show ?thesis by auto
  qed
  let ?steps = "clip_steps 0 (cutter_edges (Polygon_points h p)) (ring_order (Polygon_points h s))"
  note st = clipPolygon_steps [OF s c, folded Polygon_points_def]
  have d: "case ?steps of
       Inl err \<Rightarrow> clipPolygon h s p = Some (Inl UninitialisedRead)
     | Inr (Inl k) \<Rightarrow>
         k < p_size p \<and>
         (\<exists>h'. clipPolygon h s p
                 = Some (Inr (False, None, p\<lparr>p_v := Some (Polygon_ring h p ! k)\<rparr>, h')) \<and>
               ext h h')
     | Inr (Inr rs) \<Rightarrow>
         (\<exists>r h'. clipPolygon h s p = Some (Inr (True, Some r, p, h')) \<and> ext h h' \<and>
                 Polygon_ok h' r \<and> Polygon_points h' r = rs \<and>
                 (0 < p_size s \<or> 0 < p_size p \<longrightarrow> 0 < p_size r))"
  proof (cases ?steps)
    case (Inl err)
    with st clip_steps_error [OF Inl] show ?thesis by simp
  next
    case (Inr res)
    show ?thesis
    proof (cases res)
      case (Inl k)
      with Inr have e: "?steps = Inr (Inl k)" by simp
      from clip_steps_index [OF e] have k: "k < length ?cs"
        by (simp add: Polygon_points_def pts_def)
      from st e obtain h' where
        cl: "clipPolygon h s p = Some (Inr (False, None, p\<lparr>p_v := Some (?cs ! k)\<rparr>, h'))"
        and ex: "ext h h'" by blast
      with e k poly_at_size [OF c] show ?thesis by simp
    next
      case (Inr rs)
      with \<open>?steps = Inr res\<close> have e: "?steps = Inr (Inr rs)" by simp
      from st e obtain h' r as' where
        cl: "clipPolygon h s p = Some (Inr (True, Some r, p, h'))" and ex: "ext h h'"
        and r: "poly_at h' r as'" and pr: "pts h' as' = rs" by blast
      have sz: "p_size r = length rs"
        using poly_at_size [OF r] arg_cong [OF pr, of length] by simp
      have pos: "0 < p_size r" if "0 < p_size s \<or> 0 < p_size p"
      proof -
        from that poly_at_size [OF s] poly_at_size [OF c]
        have "cutter_edges (Polygon_points h p) \<noteq> [] \<or> ring_order (Polygon_points h s) \<noteq> []"
          by (auto simp: cutter_edges_def subject_edges_def pts_def Polygon_points_def)
        from clip_steps_nonempty [OF e this] sz show ?thesis by simp
      qed
      from poly_at_ok [OF r] pr have "Polygon_ok h' r" "Polygon_points h' r = rs"
        by (simp_all add: Polygon_points_def)
      with cl ex pos e show ?thesis by auto
    qed
  qed
  from a b t d show ?thesis by blast
qed


theorem clipPolygon_failure_and_success_witness:
  "Polygon_ok store_right one_gon \<and> Polygon_ok store_right two_gon \<and>
   clip_steps 0 (cutter_edges (Polygon_points store_right two_gon))
      (ring_order (Polygon_points store_right one_gon)) = Inr (Inl 1) \<and>
   1 < p_size two_gon \<and>
   (\<exists>h'. clipPolygon store_right one_gon two_gon
            = Some (Inr (False, None, two_gon\<lparr>p_v := Some (Polygon_ring store_right two_gon ! 1)\<rparr>, h')) \<and>
          ext store_right h') \<and>
   clipPolygon store_right one_gon two_gon
     = Some (Inr (False, None, \<lparr>p_v = Some 2, p_size = 2\<rparr>,
                  store_right @ [vtx 2 2 3 3, vtx 2 2 4 4])) \<and>
   Polygon_ok store3 two_gon \<and> Polygon_ok store3 one_gon \<and>
   clip_steps 0 (cutter_edges (Polygon_points store3 one_gon))
      (ring_order (Polygon_points store3 two_gon)) = Inr (Inr [pt 1 3, pt 1 1]) \<and>
   (\<exists>r h'. clipPolygon store3 two_gon one_gon = Some (Inr (True, Some r, one_gon, h')) \<and>
           ext store3 h' \<and> Polygon_ok h' r \<and> Polygon_points h' r = [pt 1 3, pt 1 1] \<and>
           0 < p_size r) \<and>
   clipPolygon store3 two_gon one_gon
     = Some (Inr (True, Some \<lparr>p_v = Some 5, p_size = 2\<rparr>, one_gon,
                  store3 @ [vtx 1 1 4 4, vtx 1 3 3 3, vtx 1 3 6 6, vtx 1 1 5 5])) \<and>
   Polygon_points (store3 @ [vtx 1 1 4 4, vtx 1 3 3 3, vtx 1 3 6 6, vtx 1 1 5 5])
      \<lparr>p_v = Some 5, p_size = 2\<rparr> = [pt 1 3, pt 1 1] \<and>
   Polygon_edge store3 two_gon = Inr \<lparr>org = pt 1 1, dest = pt 1 3\<rparr> \<and>
   emit_all \<lparr>org = pt 1 1, dest = pt 1 3\<rparr> (subject_edges (Polygon_points store3 one_gon))
     = Inr [] \<and>
   (\<exists>r h'. clipPolygonToEdge store3 one_gon \<lparr>org = pt 1 1, dest = pt 1 3\<rparr>
             = Inr (False, r, one_gon, h') \<and> Polygon_points h' r = []) \<and>
   clipPolygon_loop 0 store3 two_gon one_gon = Inr (False, None, two_gon, store3)"
proof -
  note t1 = clipPolygon_failure_and_success [OF store_right_ok(1) store_right_ok(2)]
  note t2 = clipPolygon_failure_and_success [OF store3_ok(2) store3_ok(1)]
  have pos: "1 < p_size two_gon" "0 < p_size two_gon" by simp_all
  from t1 have "case clip_steps 0 (cutter_edges (Polygon_points store_right two_gon))
                       (ring_order (Polygon_points store_right one_gon)) of
       Inl err \<Rightarrow> clipPolygon store_right one_gon two_gon = Some (Inl UninitialisedRead)
     | Inr (Inl k) \<Rightarrow>
         k < p_size two_gon \<and>
         (\<exists>h'. clipPolygon store_right one_gon two_gon
                 = Some (Inr (False, None, two_gon\<lparr>p_v := Some (Polygon_ring store_right two_gon ! k)\<rparr>, h')) \<and>
               ext store_right h')
     | Inr (Inr rs) \<Rightarrow>
         (\<exists>r h'. clipPolygon store_right one_gon two_gon = Some (Inr (True, Some r, two_gon, h')) \<and>
                 ext store_right h' \<and> Polygon_ok h' r \<and> Polygon_points h' r = rs \<and>
                 (0 < p_size one_gon \<or> 0 < p_size two_gon \<longrightarrow> 0 < p_size r))"
    by blast
  then have f: "\<exists>h'. clipPolygon store_right one_gon two_gon
            = Some (Inr (False, None, two_gon\<lparr>p_v := Some (Polygon_ring store_right two_gon ! 1)\<rparr>, h')) \<and>
          ext store_right h'"
    unfolding store_right_steps by simp
  from t2 have "case clip_steps 0 (cutter_edges (Polygon_points store3 one_gon))
                       (ring_order (Polygon_points store3 two_gon)) of
       Inl err \<Rightarrow> clipPolygon store3 two_gon one_gon = Some (Inl UninitialisedRead)
     | Inr (Inl k) \<Rightarrow>
         k < p_size one_gon \<and>
         (\<exists>h'. clipPolygon store3 two_gon one_gon
                 = Some (Inr (False, None, one_gon\<lparr>p_v := Some (Polygon_ring store3 one_gon ! k)\<rparr>, h')) \<and>
               ext store3 h')
     | Inr (Inr rs) \<Rightarrow>
         (\<exists>r h'. clipPolygon store3 two_gon one_gon = Some (Inr (True, Some r, one_gon, h')) \<and>
                 ext store3 h' \<and> Polygon_ok h' r \<and> Polygon_points h' r = rs \<and>
                 (0 < p_size two_gon \<or> 0 < p_size one_gon \<longrightarrow> 0 < p_size r))"
    by blast
  then have g: "\<exists>r h'. clipPolygon store3 two_gon one_gon = Some (Inr (True, Some r, one_gon, h')) \<and>
           ext store3 h' \<and> Polygon_ok h' r \<and> Polygon_points h' r = [pt 1 3, pt 1 1] \<and>
           0 < p_size r"
    unfolding store3_steps_back by simp
  from t1 have st: "\<forall>hq q e. Polygon_ok hq q \<longrightarrow>
        (case emit_all e (subject_edges (Polygon_points hq q)) of
           Inl err \<Rightarrow> clipPolygonToEdge hq q e = Inl UninitialisedRead
         | Inr ps \<Rightarrow> (\<exists>r h'. clipPolygonToEdge hq q e = Inr (ps \<noteq> [], r, q, h') \<and>
                         Polygon_ok h' r \<and> Polygon_points h' r = ring_order ps))"
    by blast
  from st [rule_format, OF store3_ok(1), of "\<lparr>org = pt 1 1, dest = pt 1 3\<rparr>"]
  have c: "\<exists>r h'. clipPolygonToEdge store3 one_gon \<lparr>org = pt 1 1, dest = pt 1 3\<rparr>
             = Inr (False, r, one_gon, h') \<and> Polygon_points h' r = []"
    unfolding store3_emit_one_gon by (auto simp: ring_order_def)
  from t1 have "\<forall>i hq pq q e r q' h1.
            i < p_size pq \<and> Polygon_edge hq pq = Inr e \<and>
            clipPolygonToEdge hq q e = Inr (False, r, q', h1) \<longrightarrow>
            clipPolygon_loop i hq pq q = Inr (False, None, pq, h1)"
    by blast
  with pos(2) store3_edge store3_clip_one_gon
  have l: "clipPolygon_loop 0 store3 two_gon one_gon = Inr (False, None, two_gon, store3)"
    by blast
  from f g c l pos(1) store_right_ok store3_ok store_right_steps store3_steps_back
    store_right_clipPolygon store3_clipPolygon_back store3_result_points store3_edge
    store3_emit_one_gon
  show ?thesis by simp
qed

text \<open>
  Claim C7.  \<open>Polygon_ok\<close> (a closed doubly-linked ring of exactly \<open>_size\<close> distinct
  vertices from the cursor, or a null cursor with count 0) implies the ring invariant of
  the specification, \<open>ring_inv\<close>.  It holds of a newly constructed polygon and is kept by
  \<open>insert\<close>, by the copy constructor (for the copy and the original), by \<open>advance\<close> in
  either direction on a polygon with a vertex, by \<open>clipPolygonToEdge\<close> (for the result and
  the subject) and by \<open>clipPolygon\<close> (for the subject, the cutter and a returned result);
  \<open>insert\<close> and the copy constructor return without error.
\<close>

theorem ring_invariant_maintained:
  "Polygon_ok h Polygon_new \<and> ring_inv h Polygon_new \<and>
   (Polygon_ok h P \<longrightarrow> ring_inv h P) \<and>
   (Polygon_ok h P \<longrightarrow>
      (\<exists>h' P'. Polygon_insert h P x = Inr (h', P') \<and> Polygon_ok h' P' \<and> ring_inv h' P')) \<and>
   (Polygon_ok h P \<longrightarrow>
      (\<exists>h' Q. Polygon_copy h P = Some (Inr (h', Q)) \<and> Polygon_ok h' Q \<and> ring_inv h' Q \<and>
              Polygon_ok h' P \<and> ring_inv h' P)) \<and>
   (Polygon_ok h P \<and> 0 < p_size P \<longrightarrow>
      (\<exists>P'. Polygon_advance h P rot = Inr P' \<and> Polygon_ok h P' \<and> ring_inv h P')) \<and>
   (Polygon_ok h P \<and> clipPolygonToEdge h P e = Inr (flag, r, s', h1) \<longrightarrow>
      Polygon_ok h1 r \<and> ring_inv h1 r \<and> Polygon_ok h1 s' \<and> ring_inv h1 s') \<and>
   (Polygon_ok h P \<and> Polygon_ok h C \<and> clipPolygon h P C = Some (Inr (fl, res, C', h2)) \<longrightarrow>
      ring_inv h2 P \<and> ring_inv h2 C' \<and>
      (\<forall>r'. res = Some r' \<longrightarrow> Polygon_ok h2 r' \<and> ring_inv h2 r'))"
proof -
  note inv = Polygon_ok_ring_inv
  have c1: "Polygon_ok h Polygon_new \<and> ring_inv h Polygon_new"
    using Polygon_ok_new inv by blast
  have c3: "\<exists>h' P'. Polygon_insert h P x = Inr (h', P') \<and> Polygon_ok h' P' \<and> ring_inv h' P'"
    if "Polygon_ok h P"
    using Polygon_insert_ok [OF that, of x] inv by blast
  have c4: "\<exists>h' Q. Polygon_copy h P = Some (Inr (h', Q)) \<and> Polygon_ok h' Q \<and> ring_inv h' Q \<and>
              Polygon_ok h' P \<and> ring_inv h' P"
    if "Polygon_ok h P"
    using Polygon_copy_ok [OF that] inv by blast
  have c5: "\<exists>P'. Polygon_advance h P rot = Inr P' \<and> Polygon_ok h P' \<and> ring_inv h P'"
    if "Polygon_ok h P" "0 < p_size P"
    using Polygon_advance_ok [OF that, of rot] inv by blast
  have c6: "Polygon_ok h1 r \<and> ring_inv h1 r \<and> Polygon_ok h1 s' \<and> ring_inv h1 s'"
    if ok: "Polygon_ok h P" and run: "clipPolygonToEdge h P e = Inr (flag, r, s', h1)"
  proof -
    from clipPolygonToEdge_ok [OF ok, of e] run
    have "s' = P" "ext h h1" "Polygon_ok h1 r" by auto
    with Polygon_ok_ext(1) [OF ok] inv show ?thesis by blast
  qed
  have c7: "ring_inv h2 P \<and> ring_inv h2 C' \<and>
      (\<forall>r'. res = Some r' \<longrightarrow> Polygon_ok h2 r' \<and> ring_inv h2 r')"
    if okP: "Polygon_ok h P" and okC: "Polygon_ok h C"
      and run: "clipPolygon h P C = Some (Inr (fl, res, C', h2))"
  proof -
    from clipPolygon_ok [OF okP okC] run
    have "ext h h2 \<and> Polygon_ok h2 C' \<and> (\<forall>r'. res = Some r' \<longrightarrow> Polygon_ok h2 r')"
      using Polygon_ok_ext(1) [OF okC] by auto
    with Polygon_ok_ext(1) [OF okP] inv show ?thesis by blast
  qed
  from c1 inv c3 c4 c5 c6 c7 show ?thesis by blast
qed

theorem ring_invariant_maintained_witness:
  "Polygon_ok store3 one_gon \<and> Polygon_ok store3 two_gon \<and> 0 < p_size two_gon \<and>
   ring_inv store3 two_gon \<and>
   (\<exists>h' P'. Polygon_insert store3 two_gon (pt 5 5) = Inr (h', P') \<and> ring_inv h' P') \<and>
   (\<exists>h' Q. Polygon_copy store3 two_gon = Some (Inr (h', Q)) \<and> ring_inv h' Q \<and>
           ring_inv h' two_gon) \<and>
   (\<exists>P'. Polygon_advance store3 two_gon COUNTER_CLOCKWISE = Inr P' \<and> ring_inv store3 P') \<and>
   clipPolygonToEdge store3 two_gon \<lparr>org = pt 0 0, dest = pt 0 5\<rparr>
     = Inr (True, \<lparr>p_v = Some 3, p_size = 2\<rparr>, two_gon, store3 @ [vtx 1 3 4 4, vtx 1 1 3 3]) \<and>
   ring_inv (store3 @ [vtx 1 3 4 4, vtx 1 1 3 3]) \<lparr>p_v = Some 3, p_size = 2\<rparr> \<and>
   ring_inv (store3 @ [vtx 1 3 4 4, vtx 1 1 3 3]) two_gon \<and>
   clipPolygon store3 one_gon two_gon
     = Some (Inr (False, None, two_gon, store3 @ [vtx 0 2 3 3])) \<and>
   ring_inv (store3 @ [vtx 0 2 3 3]) one_gon \<and>
   ring_inv (store3 @ [vtx 0 2 3 3]) two_gon"
proof -
  have pos: "0 < p_size two_gon" by simp
  note a = ring_invariant_maintained
    [of store3 two_gon "pt 5 5" COUNTER_CLOCKWISE "\<lparr>org = pt 0 0, dest = pt 0 5\<rparr>"
        True "\<lparr>p_v = Some 3, p_size = 2\<rparr>" two_gon "store3 @ [vtx 1 3 4 4, vtx 1 1 3 3]"]
  note b = ring_invariant_maintained
    [of store3 one_gon _ _ _ _ _ _ _ two_gon False None two_gon "store3 @ [vtx 0 2 3 3]"]
  from a store3_ok(2) pos store3_clip_two_gon
  have a': "ring_inv store3 two_gon"
    "\<exists>h' P'. Polygon_insert store3 two_gon (pt 5 5) = Inr (h', P') \<and> ring_inv h' P'"
    "\<exists>h' Q. Polygon_copy store3 two_gon = Some (Inr (h', Q)) \<and> ring_inv h' Q \<and>
           ring_inv h' two_gon"
    "\<exists>P'. Polygon_advance store3 two_gon COUNTER_CLOCKWISE = Inr P' \<and> ring_inv store3 P'"
    "ring_inv (store3 @ [vtx 1 3 4 4, vtx 1 1 3 3]) \<lparr>p_v = Some 3, p_size = 2\<rparr>"
    "ring_inv (store3 @ [vtx 1 3 4 4, vtx 1 1 3 3]) two_gon"
    by blast+
  from b store3_ok store3_clipPolygon
  have b': "ring_inv (store3 @ [vtx 0 2 3 3]) one_gon" "ring_inv (store3 @ [vtx 0 2 3 3]) two_gon"
    by blast+
  from a' b' store3_ok pos store3_clip_two_gon store3_clipPolygon show ?thesis by simp
qed

text \<open>
  Claim C8.  On a polygon that satisfies the invariant, \<open>Polygon::edge\<close> fails exactly
  when the vertex count is 0, and then with the runtime error "Polygon is empty"; with
  one vertex or more it returns the edge from the point of the cursor vertex to the
  point of its \<open>_next\<close> vertex.  (\<open>Polygon_edge\<close> returns neither a store nor a polygon:
  the function writes nothing.)
\<close>

theorem Polygon_edge_raises_iff_empty:
  assumes ok: "Polygon_ok h P"
  shows "((\<exists>err. Polygon_edge h P = Inl err) \<longleftrightarrow> p_size P = 0) \<and>
         (p_size P = 0 \<longrightarrow> Polygon_edge h P = Inl (RuntimeError ''Polygon is empty'')) \<and>
         (0 < p_size P \<longrightarrow>
            (\<exists>a b. p_v P = Some a \<and> nxt h a = Some b \<and>
               Polygon_edge h P = Inr \<lparr>org = Vertex_point (h ! a), dest = Vertex_point (h ! b)\<rparr>))"
proof (cases "p_size P = 0")
  case True
  with ok have "p_v P = None" by (auto simp: Polygon_ok_def split: option.splits)
  then have "Polygon_edge h P = Inl (RuntimeError ''Polygon is empty'')"
    by (simp add: Polygon_edge_def)
  with True show ?thesis by simp
next
  case False
  let ?as = "Polygon_ring h P"
  have pa: "poly_at h P ?as" using ok by (rule ok_poly_at)
  have ne: "?as \<noteq> []" using poly_at_size [OF pa] False by auto
  with pa have r: "ring h ?as" and v: "p_v P = Some (hd ?as)" by (simp_all add: poly_at_def)
  have k: "0 < length ?as" using ne by simp
  have hd0: "hd ?as = ?as ! 0" using ne by (simp add: hd_conv_nth)
  let ?b = "?as ! (Suc 0 mod length ?as)"
  have b: "?b < length ?as \<Longrightarrow> ?b \<in> set ?as" by simp
  have bl: "?b < length h"
    using ring_in_range [OF r, of ?b] Suc_mod_less [OF k] by simp
  have al: "?as ! 0 < length h" using ring_in_range [OF r, of "?as ! 0"] k by simp
  have nx: "nxt h (?as ! 0) = Some ?b" by (rule ring_nxt(1) [OF r k])
  from cursor_facts(4) [OF r k ext_refl, of P] v hd0
  have "Polygon_edge h P = Inr \<lparr>org = pts h ?as ! 0, dest = pts h ?as ! (Suc 0 mod length ?as)\<rparr>"
    by simp
  then have "Polygon_edge h P
      = Inr \<lparr>org = Vertex_point (h ! (?as ! 0)), dest = Vertex_point (h ! ?b)\<rparr>"
    using k Suc_mod_less [OF k] by (simp add: pts_nth)
  with v hd0 nx False show ?thesis by auto
qed

theorem Polygon_edge_raises_iff_empty_witness:
  "Polygon_ok store3 two_gon \<and> 0 < p_size two_gon \<and>
   (\<exists>a b. p_v two_gon = Some a \<and> nxt store3 a = Some b \<and>
      Polygon_edge store3 two_gon
        = Inr \<lparr>org = Vertex_point (store3 ! a), dest = Vertex_point (store3 ! b)\<rparr>) \<and>
   Polygon_edge store3 two_gon = Inr \<lparr>org = pt 1 1, dest = pt 1 3\<rparr> \<and>
   Polygon_ok [] Polygon_new \<and> p_size Polygon_new = 0 \<and>
   Polygon_edge [] Polygon_new = Inl (RuntimeError ''Polygon is empty'')"
proof -
  have e: "Polygon_ok [] Polygon_new" "p_size Polygon_new = 0"
    by (simp_all add: Polygon_ok_def Polygon_new_def)
  from Polygon_edge_raises_iff_empty [OF store3_ok(2)] Polygon_edge_raises_iff_empty [OF e(1)]
    store3_ok(2) store3_edge e
  show ?thesis by simp
qed

text \<open>
  Claim C9.  For a subject that satisfies the invariant and has a vertex,
  \<open>clipPolygonToEdge\<close>, unless a round reads the unassigned \<open>t\<close>, returns the subject
  as it received it, cursor and count.  The loop advances the cursor once per round:
  round \<open>i\<close> starts with the cursor \<open>i\<close> clockwise steps from where it was before the call,
  for every \<open>i\<close> up to \<open>size()\<close>, where the loop ends; and \<open>size()\<close> clockwise steps
  lead back to the cursor before the call.  Every cell of the store before the call is
  unchanged, so the ring and the points of the subject are as before.
\<close>

theorem clipPolygonToEdge_restores_subject:
  assumes ok: "Polygon_ok h s" and pos: "0 < p_size s"
  shows "clipPolygonToEdge h s e = Inl UninitialisedRead \<or>
         (\<exists>flag r h'. clipPolygonToEdge h s e = Inr (flag, r, s, h') \<and> ext h h' \<and>
            (\<forall>i\<le>p_size s. \<exists>hi pi. ext h hi \<and>
               clipPolygonToEdge_loop e i hi (s\<lparr>p_v := walk h i (p_v s)\<rparr>) pi = Inr (h', s, r)) \<and>
            walk h (p_size s) (p_v s) = p_v s \<and>
            Polygon_ring h' s = Polygon_ring h s \<and>
            Polygon_points h' s = Polygon_points h s)"
proof -
  let ?bs = "Polygon_ring h s"
  have pa: "poly_at h s ?bs" using ok by (rule ok_poly_at)
  have ne: "?bs \<noteq> []" using poly_at_size [OF pa] pos by auto
  with pa have r: "ring h ?bs" and v: "p_v s = Some (hd ?bs)" and sz: "p_size s = length ?bs"
    by (simp_all add: poly_at_def)
  have k: "0 < length ?bs" using ne by simp
  have hd0: "hd ?bs = ?bs ! 0" using ne by (simp add: hd_conv_nth)
  have w: "walk h i (p_v s) = Some (?bs ! (i mod length ?bs))" for i
    using walk_ring [OF r k, of i] v hd0 by simp
  have w0: "walk h (p_size s) (p_v s) = p_v s" using w [of "p_size s"] sz v hd0 by simp
  from clipPolygonToEdge_ok [OF ok, of e] show ?thesis
  proof
    assume "clipPolygonToEdge h s e = Inl UninitialisedRead"
    then show ?thesis by simp
  next
    assume "\<exists>flag r h'. clipPolygonToEdge h s e = Inr (flag, r, s, h') \<and> ext h h' \<and>
            Polygon_ok h' r \<and> flag = (0 < p_size r) \<and>
            (\<forall>a\<in>set (Polygon_ring h' r). length h \<le> a)"
    then obtain flag r h' where run: "clipPolygonToEdge h s e = Inr (flag, r, s, h')"
      and ex: "ext h h'" by blast
    from run have l0: "clipPolygonToEdge_loop e 0 h s Polygon_new = Inr (h', s, r)"
      by (auto simp: clipPolygonToEdge_def split: sum.splits)
    have s0: "s\<lparr>p_v := Some (?bs ! (0 mod length ?bs))\<rparr> = s" using v hd0 by simp
    have rounds: "\<exists>hi pi. ext h hi \<and>
        clipPolygonToEdge_loop e i hi (s\<lparr>p_v := walk h i (p_v s)\<rparr>) pi = Inr (h', s, r)"
      if "i \<le> p_size s" for i
    proof -
      from that sz have i: "i \<le> length ?bs" by simp
      from clip_loop_rounds [OF r sz, of e "(h', s, r)" i] l0 s0 i
      obtain hi pi as where f: "fresh_poly h hi pi as"
        and l: "clipPolygonToEdge_loop e i hi (s\<lparr>p_v := Some (?bs ! (i mod length ?bs))\<rparr>) pi
           = Inr (h', s, r)"
        by auto
      from l have "clipPolygonToEdge_loop e i hi (s\<lparr>p_v := walk h i (p_v s)\<rparr>) pi = Inr (h', s, r)"
        unfolding w [of i] .
      with fresh_ext [OF f] show ?thesis by blast
    qed
    from run ex rounds w0 Polygon_ok_ext(2,3) [OF ok ex] show ?thesis by blast
  qed
qed

theorem clipPolygonToEdge_restores_subject_witness:
  "Polygon_ok store3 two_gon \<and> 0 < p_size two_gon \<and>
   clipPolygonToEdge store3 two_gon \<lparr>org = pt 0 0, dest = pt 0 5\<rparr>
     = Inr (True, \<lparr>p_v = Some 3, p_size = 2\<rparr>, two_gon, store3 @ [vtx 1 3 4 4, vtx 1 1 3 3]) \<and>
   ext store3 (store3 @ [vtx 1 3 4 4, vtx 1 1 3 3]) \<and>
   (\<exists>hi pi. ext store3 hi \<and>
      clipPolygonToEdge_loop \<lparr>org = pt 0 0, dest = pt 0 5\<rparr> 1 hi
          (two_gon\<lparr>p_v := walk store3 1 (p_v two_gon)\<rparr>) pi
        = Inr (store3 @ [vtx 1 3 4 4, vtx 1 1 3 3], two_gon, \<lparr>p_v = Some 3, p_size = 2\<rparr>)) \<and>
   walk store3 (p_size two_gon) (p_v two_gon) = p_v two_gon \<and>
   Polygon_ring (store3 @ [vtx 1 3 4 4, vtx 1 1 3 3]) two_gon = Polygon_ring store3 two_gon \<and>
   Polygon_points (store3 @ [vtx 1 3 4 4, vtx 1 1 3 3]) two_gon = Polygon_points store3 two_gon"
proof -
  have pos: "0 < p_size two_gon" by simp
  have one: "(1::nat) \<le> p_size two_gon" by simp
  from clipPolygonToEdge_restores_subject [OF store3_ok(2) pos, of "\<lparr>org = pt 0 0, dest = pt 0 5\<rparr>"]
    store3_clip_two_gon
  have "ext store3 (store3 @ [vtx 1 3 4 4, vtx 1 1 3 3]) \<and>
        (\<forall>i\<le>p_size two_gon. \<exists>hi pi. ext store3 hi \<and>
           clipPolygonToEdge_loop \<lparr>org = pt 0 0, dest = pt 0 5\<rparr> i hi
               (two_gon\<lparr>p_v := walk store3 i (p_v two_gon)\<rparr>) pi
             = Inr (store3 @ [vtx 1 3 4 4, vtx 1 1 3 3], two_gon, \<lparr>p_v = Some 3, p_size = 2\<rparr>)) \<and>
        walk store3 (p_size two_gon) (p_v two_gon) = p_v two_gon \<and>
        Polygon_ring (store3 @ [vtx 1 3 4 4, vtx 1 1 3 3]) two_gon = Polygon_ring store3 two_gon \<and>
        Polygon_points (store3 @ [vtx 1 3 4 4, vtx 1 1 3 3]) two_gon = Polygon_points store3 two_gon"
    by auto
  with one store3_ok(2) pos store3_clip_two_gon show ?thesis by blast
qed




end
